theory Spec2Isabelle
  imports Main "HOL-Library.Multiset" "HOL-Library.Word"
begin

unbundle bit_operations_syntax

section \<open>Shared notions\<close>

text \<open>
  Diagnostics (\<open>msg_info\<close>, \<open>msg_warn\<close> of \<open>util/msg.h\<close>) are collected in a log, oldest
  first. The text that \<open>%m\<close> would insert (the description of \<open>errno\<close>) is not modelled
  and is left as the two characters \<open>%m\<close>.
\<close>

datatype msg = Msg_info string | Msg_warn string

text \<open>
  \<open>strcasecmp(a, b) == 0\<close>: equality of C strings up to the case of ASCII letters.
\<close>

definition tolower_c :: "char \<Rightarrow> char" where
  "tolower_c c =
     (case map_of (zip ''ABCDEFGHIJKLMNOPQRSTUVWXYZ'' ''abcdefghijklmnopqrstuvwxyz'') c of
        Some l \<Rightarrow> l
      | None \<Rightarrow> c)"

definition strcaseeq :: "string \<Rightarrow> string \<Rightarrow> bool" where
  "strcaseeq a b = (map tolower_c a = map tolower_c b)"

section \<open>Trigger bus: \<open>util/fifo_trigger.c\<close>\<close>

text \<open>
  The operating system is a parameter: what \<open>open\<close>, \<open>write_buf\<close> and \<open>close\<close> answer.
  \<open>fo_open\<close> gives the descriptor or a negative number; \<open>fo_write_buf\<close> gives the
  result of \<open>write_buf(fd, buf, len, timeout)\<close> (negative on failure) together with the
  bytes that the FIFO really took; \<open>fo_close\<close> gives 0 on success.
\<close>

record fifo_os =
  fo_open :: "string \<Rightarrow> int"
  fo_write_buf :: "int \<Rightarrow> string \<Rightarrow> int \<Rightarrow> int \<Rightarrow> int \<times> string"
  fo_close :: "int \<Rightarrow> int"

text \<open>
  What the call leaves behind: the bytes that reached the listener of each endpoint, the
  blocking mode chosen for each descriptor (\<open>NON_BLOCKING = 1\<close>, \<open>BLOCKING = 0\<close>), the
  descriptors closed, and the log.
\<close>

record fifo_world =
  fifo_received :: "(string \<times> string) list"
  fd_mode :: "(int \<times> int) list"
  closed :: "int list"
  fifo_log :: "msg list"

definition NON_BLOCKING :: int where "NON_BLOCKING = 1"
definition BLOCKING :: int where "BLOCKING = 0"

definition non_blocking :: "int \<Rightarrow> int \<Rightarrow> fifo_world \<Rightarrow> fifo_world" where
  "non_blocking fd on w = w\<lparr>fd_mode := fd_mode w @ [(fd, on)]\<rparr>"

definition fifo_trigger ::
  "fifo_os \<Rightarrow> bool \<Rightarrow> string \<Rightarrow> string \<Rightarrow> int \<Rightarrow> int \<Rightarrow> fifo_world \<Rightarrow> int \<times> fifo_world" where
  "fifo_trigger os msg_verbose service buf len timeout w =
     (let myname = ''fifo_trigger''; fd = fo_open os service in
      if fd < 0 then
        (- 1,
         if msg_verbose
         then w\<lparr>fifo_log := fifo_log w @ [Msg_info (myname @ '': open '' @ service @ '': %m'')]\<rparr>
         else w)
      else
        let w1 = non_blocking fd (if timeout > 0 then NON_BLOCKING else BLOCKING) w;
            (wr, taken) = fo_write_buf os fd buf len timeout;
            w2 = w1\<lparr>fifo_received := fifo_received w1 @ [(service, taken)]\<rparr>;
            w3 = (if wr < 0 \<and> msg_verbose
                  then w2\<lparr>fifo_log := fifo_log w2 @ [Msg_warn (myname @ '': write '' @ service @ '': %m'')]\<rparr>
                  else w2);
            w4 = w3\<lparr>closed := closed w3 @ [fd]\<rparr>;
            w5 = (if fo_close os fd \<noteq> 0 \<and> msg_verbose
                  then w4\<lparr>fifo_log := fifo_log w4 @ [Msg_warn (myname @ '': close '' @ service @ '': %m'')]\<rparr>
                  else w4)
        in (0, w5))"

text \<open>An operating system in which the FIFO opens but takes no byte, and \<open>close\<close> fails.\<close>

definition os_write_fails :: fifo_os where
  "os_write_fails =
     \<lparr>fo_open = (\<lambda>_. 3), fo_write_buf = (\<lambda>_ _ _ _. (- 1, [])), fo_close = (\<lambda>_. - 1)\<rparr>"

definition world0 :: fifo_world where
  "world0 = \<lparr>fifo_received = [], fd_mode = [], closed = [], fifo_log = []\<rparr>"

section \<open>Queue file finalization: \<open>global/mail_stream.c\<close>\<close>

text \<open>
  Modelled from the spec: \<open>cleanup_user.h\<close> is not among the sources; the spec speaks of
  success and of a write error. \<open>mail_stream_finish_file\<close> starts from \<open>status = 0\<close> and
  then tests \<open>status == CLEANUP_STAT_OK\<close>, and \<open>sendmail.c\<close> tests
  \<open>status & CLEANUP_STAT_WRITE\<close>: success is 0 and the write error is a nonzero bit of
  the error mask.
\<close>

definition CLEANUP_STAT_OK :: int where "CLEANUP_STAT_OK = 0"
definition CLEANUP_STAT_WRITE :: int where "CLEANUP_STAT_WRITE = 2"

text \<open>
  The results of the system calls made on the stream are parameters (0 is success, as in
  C). \<open>has_fsync\<close> is the build-time switch \<open>HAS_FSYNC\<close>.
\<close>

record stream_os =
  so_fflush :: int
  so_fchmod :: int
  so_fsync :: int
  so_close :: int

text \<open>
  The \<open>MAIL_STREAM\<close> handle, and the world it acts on: the permission bits of the queue
  file (\<open>mail_stream_file\<close> creates it with mode 0600), whether it was synced, whether the
  stream is closed, and the triggers sent with \<open>mail_trigger(class, service, buf, len)\<close>.
\<close>

record mail_stream =
  ms_stream :: "nat option"
  ms_id :: "string option"
  ms_class :: "string option"
  ms_service :: "string option"

record stream_world =
  file_mode :: int
  file_synced :: bool
  stream_closed :: bool
  triggers :: "(string option \<times> string option \<times> string) list"

definition TRIGGER_REQ_WAKEUP :: char where "TRIGGER_REQ_WAKEUP = CHR ''W''"

definition mail_stream_cleanup :: "mail_stream \<Rightarrow> mail_stream" where
  "mail_stream_cleanup info =
     info\<lparr>ms_stream := None, ms_id := None, ms_class := None, ms_service := None\<rparr>"

text \<open>
  The three calls of the first condition are joined by \<open>||\<close>: \<open>fchmod\<close> runs only after a
  successful flush, \<open>fsync\<close> only after a successful \<open>fchmod\<close>. A successful
  \<open>fchmod(fd, 0700)\<close> sets the mode to 0700 (448).
\<close>

definition mail_stream_finish_file ::
  "bool \<Rightarrow> stream_os \<Rightarrow> mail_stream \<Rightarrow> stream_world \<Rightarrow> int \<times> mail_stream \<times> stream_world" where
  "mail_stream_finish_file has_fsync os info w =
     (let status0 = (0::int);
          wakeup = [TRIGGER_REQ_WAKEUP];
          flush_failed = (so_fflush os \<noteq> 0);
          w1 = (if \<not> flush_failed \<and> so_fchmod os = 0 then w\<lparr>file_mode := 448\<rparr> else w);
          chmod_failed = (\<not> flush_failed \<and> so_fchmod os \<noteq> 0);
          sync_tried = (\<not> flush_failed \<and> \<not> chmod_failed \<and> has_fsync);
          w2 = (if sync_tried \<and> so_fsync os = 0 then w1\<lparr>file_synced := True\<rparr> else w1);
          sync_failed = (sync_tried \<and> so_fsync os \<noteq> 0);
          status1 = (if flush_failed \<or> chmod_failed \<or> sync_failed
                     then CLEANUP_STAT_WRITE else status0);
          status2 = (if so_close os \<noteq> 0 then CLEANUP_STAT_WRITE else status1);
          w3 = w2\<lparr>stream_closed := True\<rparr>;
          info1 = info\<lparr>ms_stream := None\<rparr>;
          w4 = (if status2 = CLEANUP_STAT_OK
                then w3\<lparr>triggers := triggers w3 @ [(ms_class info1, ms_service info1, wakeup)]\<rparr>
                else w3)
      in (status2, mail_stream_cleanup info1, w4))"

text \<open>The execute bits of a mode: any of 0111 (73).\<close>

definition has_exec_bit :: "int \<Rightarrow> bool" where
  "has_exec_bit m = (m AND 73 \<noteq> 0)"

definition new_queue_file :: stream_world where
  "new_queue_file = \<lparr>file_mode = 384, file_synced = False, stream_closed = False, triggers = []\<rparr>"

definition incoming_stream :: mail_stream where
  "incoming_stream =
     \<lparr>ms_stream = Some 0, ms_id = Some ''A1B2C3'', ms_class = Some ''public'',
      ms_service = Some ''qmgr''\<rparr>"

definition os_fsync_fails :: stream_os where
  "os_fsync_fails = \<lparr>so_fflush = 0, so_fchmod = 0, so_fsync = - 1, so_close = 0\<rparr>"

definition os_all_well :: stream_os where
  "os_all_well = \<lparr>so_fflush = 0, so_fchmod = 0, so_fsync = 0, so_close = 0\<rparr>"

section \<open>Cleanup: address mapping, \<open>cleanup/cleanup_map11.c\<close> and \<open>cleanup/cleanup_map1n.c\<close>\<close>

text \<open>
  \<open>mail_addr_map(maps, address, propagate)\<close> is not among the sources. It gives a null
  pointer with \<open>dict_errno == 0\<close> (no match), a null pointer with \<open>dict_errno != 0\<close> (the
  table could not be consulted), or a vector with at least one address. The tables are a
  parameter of the model: a title and the answer to every lookup.
\<close>

datatype lookup = Found string "string list" | Not_found | Lookup_error

record maps =
  maps_title :: string
  maps_lookup :: "string \<Rightarrow> int \<Rightarrow> lookup"

definition mail_addr_map :: "maps \<Rightarrow> string \<Rightarrow> int \<Rightarrow> lookup" where
  "mail_addr_map m addr propagate = maps_lookup m addr propagate"

text \<open>
  The globals of the cleanup process that the mapping routines touch: the error mask
  \<open>cleanup_errs\<close>, the queue id used in warnings, and the log. \<open>lookups\<close> records every
  call of \<open>mail_addr_map\<close> in order: the index of the list slot being rewritten (0 in the
  one-to-one mapping, which has one address), the key and the answer.
\<close>

record cleanup_state =
  cleanup_errs :: int
  cleanup_queue_id :: string
  cleanup_log :: "msg list"
  lookups :: "(nat \<times> string \<times> lookup) list"

definition cleanup_warn :: "string \<Rightarrow> cleanup_state \<Rightarrow> cleanup_state" where
  "cleanup_warn text st = st\<lparr>cleanup_log := cleanup_log st @ [Msg_warn text]\<rparr>"

definition note_lookup :: "nat \<Rightarrow> string \<Rightarrow> lookup \<Rightarrow> cleanup_state \<Rightarrow> cleanup_state" where
  "note_lookup slot key r st = st\<lparr>lookups := lookups st @ [(slot, key, r)]\<rparr>"

definition multi_valued_text :: "cleanup_state \<Rightarrow> maps \<Rightarrow> string \<Rightarrow> string" where
  "multi_valued_text st m addr =
     cleanup_queue_id st @ '': multi-valued '' @ maps_title m @ '' entry for '' @ addr"

definition lookup_problem_text :: "cleanup_state \<Rightarrow> maps \<Rightarrow> string \<Rightarrow> string" where
  "lookup_problem_text st m addr =
     cleanup_queue_id st @ '': '' @ maps_title m @ '' map lookup problem for '' @ addr"

definition nesting_text :: "cleanup_state \<Rightarrow> maps \<Rightarrow> string \<Rightarrow> string" where
  "nesting_text st m addr =
     cleanup_queue_id st @ '': unreasonable '' @ maps_title m @ '' map nesting for '' @ addr"

definition expansion_size_text :: "cleanup_state \<Rightarrow> maps \<Rightarrow> string \<Rightarrow> string" where
  "expansion_size_text st m addr =
     cleanup_queue_id st @ '': unreasonable '' @ maps_title m @ '' map expansion size for ''
       @ addr"

subsection \<open>One-to-one mapping\<close>

definition MAX_RECURSION_11 :: nat where "MAX_RECURSION_11 = 10"

text \<open>
  The \<open>for\<close> loop of \<open>cleanup_map11_external\<close>, from the value \<open>cnt\<close> of its counter \<open>count\<close>;
  \<open>addr\<close> is the content of the \<open>VSTRING\<close> that the routine rewrites in place.
\<close>

function map11_loop ::
  "maps \<Rightarrow> int \<Rightarrow> nat \<Rightarrow> string \<Rightarrow> cleanup_state \<Rightarrow> string \<times> cleanup_state" where
  "map11_loop m propagate cnt addr st =
     (if cnt < MAX_RECURSION_11 then
        (case mail_addr_map m addr propagate of
           Found a rest \<Rightarrow>
             (let st1 = note_lookup 0 addr (Found a rest) st;
                  st2 = (if rest \<noteq> [] then cleanup_warn (multi_valued_text st1 m addr) st1
                         else st1);
                  saved_addr = addr;
                  addr' = a;
                  expand_to_self = strcaseeq saved_addr addr'
              in if expand_to_self then (addr', st2)
                 else map11_loop m propagate (Suc cnt) addr' st2)
         | Lookup_error \<Rightarrow>
             (let st1 = note_lookup 0 addr Lookup_error st;
                  st2 = cleanup_warn (lookup_problem_text st1 m addr) st1
              in (addr, st2\<lparr>cleanup_errs := cleanup_errs st2 OR CLEANUP_STAT_WRITE\<rparr>))
         | Not_found \<Rightarrow> (addr, note_lookup 0 addr Not_found st))
      else (addr, cleanup_warn (nesting_text st m addr) st))"
  by pat_completeness auto
termination
  by (relation "measure (\<lambda>(m, propagate, cnt, addr, st). MAX_RECURSION_11 - cnt)") auto

declare map11_loop.simps [simp del]

definition cleanup_map11_external ::
  "maps \<Rightarrow> int \<Rightarrow> string \<Rightarrow> cleanup_state \<Rightarrow> string \<times> cleanup_state" where
  "cleanup_map11_external m propagate addr st = map11_loop m propagate 0 addr st"

text \<open>
  The lookups that the one-to-one mapping makes, read as a chain. The value of the
  address after a lookup is the first address of the answer, and the key itself when there
  is no answer. The loop goes on after a lookup only when the answer differs from the key
  (up to case). In a chain that starts from an address, every lookup asks the table for
  the value that the lookup before it left. A lookup leaves the multi-valued warning or
  the lookup-problem warning in the log, or nothing.
\<close>

definition lookup_value :: "nat \<times> string \<times> lookup \<Rightarrow> string" where
  "lookup_value c = (case snd (snd c) of Found a rest \<Rightarrow> a | _ \<Rightarrow> fst (snd c))"

definition goes_on11 :: "nat \<times> string \<times> lookup \<Rightarrow> bool" where
  "goes_on11 c =
     (case snd (snd c) of Found a rest \<Rightarrow> \<not> strcaseeq (fst (snd c)) a | _ \<Rightarrow> False)"

fun map11_chain :: "maps \<Rightarrow> int \<Rightarrow> string \<Rightarrow> (nat \<times> string \<times> lookup) list \<Rightarrow> bool" where
  "map11_chain m propagate addr [] = True"
| "map11_chain m propagate addr (c # tr) =
     (c = (0, addr, mail_addr_map m addr propagate)
      \<and> map11_chain m propagate (lookup_value c) tr)"

definition map11_warning :: "cleanup_state \<Rightarrow> maps \<Rightarrow> nat \<times> string \<times> lookup \<Rightarrow> msg list" where
  "map11_warning st m c =
     (case snd (snd c) of
        Found a rest \<Rightarrow>
          (if rest \<noteq> [] then [Msg_warn (multi_valued_text st m (fst (snd c)))] else [])
      | Lookup_error \<Rightarrow> [Msg_warn (lookup_problem_text st m (fst (snd c)))]
      | Not_found \<Rightarrow> [])"

text \<open>
  The two ways in which the address returned is a fixed point of the mapping: the last
  lookup gave the address and matched its own key up to case, or the last lookup, of the
  address, found nothing.
\<close>

definition ended_self_match :: "(nat \<times> string \<times> lookup) list \<Rightarrow> string \<Rightarrow> bool" where
  "ended_self_match tr addr' =
     (tr \<noteq> [] \<and>
      (case snd (snd (last tr)) of
         Found a rest \<Rightarrow> a = addr' \<and> strcaseeq (fst (snd (last tr))) addr'
       | _ \<Rightarrow> False))"

definition ended_no_match :: "(nat \<times> string \<times> lookup) list \<Rightarrow> string \<Rightarrow> bool" where
  "ended_no_match tr addr' = (tr \<noteq> [] \<and> snd (last tr) = (addr', Not_found))"

text \<open>The lookups made between two states.\<close>

definition new_lookups :: "cleanup_state \<Rightarrow> cleanup_state \<Rightarrow> (nat \<times> string \<times> lookup) list" where
  "new_lookups st st' = drop (length (lookups st)) (lookups st')"

text \<open>
  A run of the one-to-one loop that may make \<open>budget\<close> lookups, from \<open>addr\<close> in state
  \<open>st\<close> to \<open>addr'\<close> in state \<open>st'\<close>, with the lookups \<open>tr\<close>.
\<close>

definition map11_run ::
  "maps \<Rightarrow> int \<Rightarrow> nat \<Rightarrow> string \<Rightarrow> cleanup_state \<Rightarrow> string \<Rightarrow> cleanup_state
    \<Rightarrow> (nat \<times> string \<times> lookup) list \<Rightarrow> bool" where
  "map11_run m propagate budget addr st addr' st' tr =
     (lookups st' = lookups st @ tr
      \<and> tr \<noteq> [] \<and> length tr \<le> budget
      \<and> map11_chain m propagate addr tr
      \<and> (\<forall>c \<in> set (butlast tr). goes_on11 c)
      \<and> (goes_on11 (last tr) \<longrightarrow> length tr = budget)
      \<and> addr' = lookup_value (last tr)
      \<and> cleanup_errs st' =
          (if snd (snd (last tr)) = Lookup_error then cleanup_errs st OR CLEANUP_STAT_WRITE
           else cleanup_errs st)
      \<and> cleanup_log st' =
          cleanup_log st @ concat (map (map11_warning st m) tr)
            @ (if goes_on11 (last tr) then [Msg_warn (nesting_text st m addr')] else [])
      \<and> cleanup_queue_id st' = cleanup_queue_id st)"

text \<open>Two tables that send \<open>a\<close> to \<open>b\<close> and \<open>b\<close> to \<open>a\<close>, and a table with one entry.\<close>

definition swap_maps :: maps where
  "swap_maps =
     \<lparr>maps_title = ''canonical'',
      maps_lookup = (\<lambda>k _. if k = ''a'' then Found ''b'' []
                           else if k = ''b'' then Found ''a'' [] else Not_found)\<rparr>"

definition one_maps :: maps where
  "one_maps =
     \<lparr>maps_title = ''canonical'',
      maps_lookup = (\<lambda>k _. if k = ''joe'' then Found ''Joe@example.com'' [] else Not_found)\<rparr>"

definition cleanup0 :: cleanup_state where
  "cleanup0 = \<lparr>cleanup_errs = 0, cleanup_queue_id = ''A1B2C3'', cleanup_log = [], lookups = []\<rparr>"

subsection \<open>One-to-many expansion\<close>

definition MAX_RECURSION :: nat where "MAX_RECURSION = 1000"
definition MAX_EXPANSION :: nat where "MAX_EXPANSION = 1000"

text \<open>
  The loop over one lookup result: \<open>i\<close> is the index into the result, \<open>saved_lhs\<close> the
  address that was looked up, \<open>unq\<close> stands for \<open>unquote_822_local\<close> (not among the
  sources, a parameter). The first address replaces slot \<open>arg\<close>, the others are appended.
\<close>

fun map1n_store ::
  "(string \<Rightarrow> string) \<Rightarrow> string \<Rightarrow> nat \<Rightarrow> nat \<Rightarrow> string list \<Rightarrow> string list \<times> bool
    \<Rightarrow> string list \<times> bool" where
  "map1n_store unq saved_lhs arg i [] (argv, expand_to_self) = (argv, expand_to_self)"
| "map1n_store unq saved_lhs arg i (x # xs) (argv, expand_to_self) =
     (let temp1 = unq x;
          expand_to_self' = (if strcaseeq saved_lhs temp1 then True else expand_to_self);
          argv' = (if i = 0 then argv[arg := temp1] else argv @ [temp1])
      in map1n_store unq saved_lhs arg (Suc i) xs (argv', expand_to_self'))"

text \<open>
  How the inner loop is left: by \<open>return (argv)\<close>, or by \<open>break\<close>, which goes on with the
  next slot.
\<close>

datatype leave = Return | Next_slot

text \<open>The inner \<open>for (count = 0; ; count++)\<close> loop, for slot \<open>arg\<close>, from the counter \<open>cnt\<close>.\<close>

function map1n_inner ::
  "(string \<Rightarrow> string) \<Rightarrow> maps \<Rightarrow> int \<Rightarrow> string \<Rightarrow> nat \<Rightarrow> nat \<Rightarrow> bool \<Rightarrow> string list
    \<Rightarrow> cleanup_state \<Rightarrow> leave \<times> bool \<times> string list \<times> cleanup_state" where
  "map1n_inner unq m propagate addr arg cnt expand_to_self argv st =
     (if cnt \<ge> MAX_RECURSION
      then (Next_slot, expand_to_self, argv, cleanup_warn (nesting_text st m addr) st)
      else
        (case mail_addr_map m (argv ! arg) propagate of
           Found a rest \<Rightarrow>
             (let st1 = note_lookup arg (argv ! arg) (Found a rest) st;
                  saved_lhs = argv ! arg;
                  (argv', expand_to_self') =
                     map1n_store unq saved_lhs arg 0 (a # rest) (argv, expand_to_self)
              in if expand_to_self' then (Return, expand_to_self', argv', st1)
                 else map1n_inner unq m propagate addr arg (Suc cnt) expand_to_self' argv' st1)
         | Lookup_error \<Rightarrow>
             (let st1 = note_lookup arg (argv ! arg) Lookup_error st;
                  st2 = cleanup_warn (lookup_problem_text st1 m addr) st1
              in (Return, expand_to_self, argv,
                  st2\<lparr>cleanup_errs := cleanup_errs st2 OR CLEANUP_STAT_WRITE\<rparr>))
         | Not_found \<Rightarrow>
             (Next_slot, expand_to_self, argv, note_lookup arg (argv ! arg) Not_found st)))"
  by pat_completeness auto
termination
  by (relation "measure (\<lambda>(unq, m, propagate, addr, arg, cnt, self, argv, st). MAX_RECURSION - cnt)")
    auto

declare map1n_inner.simps [simp del]

text \<open>The outer \<open>for (...; arg < argv->argc; arg++)\<close> loop, from slot \<open>arg\<close>.\<close>

function map1n_outer ::
  "(string \<Rightarrow> string) \<Rightarrow> maps \<Rightarrow> int \<Rightarrow> string \<Rightarrow> nat \<Rightarrow> bool \<Rightarrow> string list
    \<Rightarrow> cleanup_state \<Rightarrow> string list \<times> cleanup_state" where
  "map1n_outer unq m propagate addr arg expand_to_self argv st =
     (if arg < length argv then
        (if length argv > MAX_EXPANSION
         then (argv, cleanup_warn (expansion_size_text st m addr) st)
         else
           (case map1n_inner unq m propagate addr arg 0 expand_to_self argv st of
              (Return, expand_to_self', argv', st') \<Rightarrow> (argv', st')
            | (Next_slot, expand_to_self', argv', st') \<Rightarrow>
                map1n_outer unq m propagate addr (Suc arg) expand_to_self' argv' st'))
      else (argv, st))"
  by pat_completeness auto
termination
  by (relation "measure (\<lambda>(unq, m, propagate, addr, arg, self, argv, st). Suc MAX_EXPANSION - arg)")
    auto

declare map1n_outer.simps [simp del]

definition cleanup_map1n_internal ::
  "(string \<Rightarrow> string) \<Rightarrow> maps \<Rightarrow> int \<Rightarrow> string \<Rightarrow> cleanup_state \<Rightarrow> string list \<times> cleanup_state"
  where
  "cleanup_map1n_internal unq m propagate addr st =
     map1n_outer unq m propagate addr 0 False [addr] st"

text \<open>A lookup whose result contains the address looked up (case-insensitive, unquoted).\<close>

definition expands_to_self :: "(string \<Rightarrow> string) \<Rightarrow> nat \<times> string \<times> lookup \<Rightarrow> bool" where
  "expands_to_self unq c =
     (case snd (snd c) of
        Found a rest \<Rightarrow> list_ex (\<lambda>x. strcaseeq (fst (snd c)) (unq x)) (a # rest)
      | _ \<Rightarrow> False)"

text \<open>
  A table whose entry for \<open>a\<close> lists 1001 addresses, and the table of a mailing list that
  names itself.
\<close>

definition wide_maps :: maps where
  "wide_maps =
     \<lparr>maps_title = ''virtual'',
      maps_lookup = (\<lambda>k _. if k = ''a'' then Found ''b'' (replicate 1000 ''b'') else Not_found)\<rparr>"

definition list_maps :: maps where
  "list_maps =
     \<lparr>maps_title = ''virtual'',
      maps_lookup = (\<lambda>k _. if k = ''list@x'' then Found ''list@x'' [''alice@x'', ''bob@x'']
                           else Not_found)\<rparr>"

text \<open>
  A table that sends \<open>s\<close> to the two addresses \<open>a\<close> and \<open>c\<close>, \<open>a\<close> to \<open>b\<close> and back, and
  \<open>c\<close> to \<open>d\<close>; \<open>other\<close> is what it gives for \<open>a\<close> and \<open>b\<close>.
\<close>

definition other :: "string \<Rightarrow> string" where
  "other x = (if x = ''a'' then ''b'' else ''a'')"

definition loop_maps :: maps where
  "loop_maps =
     \<lparr>maps_title = ''virtual'',
      maps_lookup = (\<lambda>k _. if k = ''s'' then Found ''a'' [''c'']
                           else if k = ''a'' \<or> k = ''b'' then Found (other k) []
                           else if k = ''c'' then Found ''d'' []
                           else Not_found)\<rparr>"

text \<open>
  The lookups of the one-to-many expansion, read as a trace. A lookup is a stopper when
  the expansion returns right after it: its result contains the key, or the table could
  not be consulted. After a lookup with any other result the inner loop goes on with the
  same slot. A lookup changes the list: the first address of the result replaces the
  slot, the others are appended. In a chain that starts from a list, every lookup is for a
  slot of the list as the lookups before it left it, asks the table for the content of
  that slot, and records the answer.
\<close>

definition stopper :: "(string \<Rightarrow> string) \<Rightarrow> nat \<times> string \<times> lookup \<Rightarrow> bool" where
  "stopper unq c = (expands_to_self unq c \<or> snd (snd c) = Lookup_error)"

definition goes_on1n :: "(string \<Rightarrow> string) \<Rightarrow> nat \<times> string \<times> lookup \<Rightarrow> bool" where
  "goes_on1n unq c =
     (case snd (snd c) of Found a rest \<Rightarrow> \<not> expands_to_self unq c | _ \<Rightarrow> False)"

definition map1n_step ::
  "(string \<Rightarrow> string) \<Rightarrow> string list \<Rightarrow> nat \<times> string \<times> lookup \<Rightarrow> string list" where
  "map1n_step unq argv c =
     (case snd (snd c) of
        Found a rest \<Rightarrow> argv[fst c := unq a] @ map unq rest
      | _ \<Rightarrow> argv)"

fun map1n_chain ::
  "(string \<Rightarrow> string) \<Rightarrow> maps \<Rightarrow> int \<Rightarrow> string list \<Rightarrow> (nat \<times> string \<times> lookup) list \<Rightarrow> bool"
  where
  "map1n_chain unq m propagate argv [] = True"
| "map1n_chain unq m propagate argv (c # tr) =
     (fst c < length argv
      \<and> snd c = (argv ! fst c, mail_addr_map m (argv ! fst c) propagate)
      \<and> map1n_chain unq m propagate (map1n_step unq argv c) tr)"

text \<open>
  The lookups made for one slot, and those made for the slots before it. The nesting cap
  is reached on a slot when 1000 lookups
  were made for it and the last of them would have the loop go on. The loop leaves a slot
  for the next one when the last lookup found nothing, or at the nesting cap.
\<close>

definition slot_lookups :: "nat \<Rightarrow> (nat \<times> string \<times> lookup) list \<Rightarrow> (nat \<times> string \<times> lookup) list"
  where
  "slot_lookups s tr = filter (\<lambda>c. fst c = s) tr"

definition lookups_before :: "nat \<Rightarrow> (nat \<times> string \<times> lookup) list \<Rightarrow> (nat \<times> string \<times> lookup) list"
  where
  "lookups_before s tr = filter (\<lambda>c. fst c < s) tr"

definition nesting_capped :: "(string \<Rightarrow> string) \<Rightarrow> (nat \<times> string \<times> lookup) list \<Rightarrow> bool" where
  "nesting_capped unq seg = (length seg = MAX_RECURSION \<and> goes_on1n unq (last seg))"

definition slot_left :: "(string \<Rightarrow> string) \<Rightarrow> (nat \<times> string \<times> lookup) list \<Rightarrow> bool" where
  "slot_left unq seg =
     (seg \<noteq> [] \<and> (snd (snd (last seg)) = Not_found \<or> nesting_capped unq seg))"

text \<open>
  A run of the inner loop on slot \<open>arg\<close> that may make \<open>budget\<close> lookups, and a run of
  the outer loop from slot \<open>arg\<close>, with the lookups \<open>tr\<close>.
\<close>

definition inner_run ::
  "(string \<Rightarrow> string) \<Rightarrow> maps \<Rightarrow> int \<Rightarrow> string \<Rightarrow> nat \<Rightarrow> nat \<Rightarrow> string list \<Rightarrow> cleanup_state
    \<Rightarrow> leave \<Rightarrow> bool \<Rightarrow> string list \<Rightarrow> cleanup_state \<Rightarrow> (nat \<times> string \<times> lookup) list \<Rightarrow> bool"
  where
  "inner_run unq m propagate addr arg budget argv st lv self' argv' st' tr =
     (lookups st' = lookups st @ tr
      \<and> tr \<noteq> [] \<and> length tr \<le> budget
      \<and> (\<forall>c \<in> set tr. fst c = arg)
      \<and> map1n_chain unq m propagate argv tr
      \<and> argv' = foldl (map1n_step unq) argv tr
      \<and> (\<forall>c \<in> set (butlast tr). goes_on1n unq c)
      \<and> (goes_on1n unq (last tr) \<longrightarrow> length tr = budget)
      \<and> lv = (if stopper unq (last tr) then Return else Next_slot)
      \<and> (lv = Next_slot \<longrightarrow> \<not> self')
      \<and> cleanup_errs st' =
          (if snd (snd (last tr)) = Lookup_error then cleanup_errs st OR CLEANUP_STAT_WRITE
           else cleanup_errs st)
      \<and> cleanup_log st' =
          cleanup_log st
            @ (if snd (snd (last tr)) = Lookup_error
               then [Msg_warn (lookup_problem_text st m addr)] else [])
            @ (if goes_on1n unq (last tr) then [Msg_warn (nesting_text st m addr)] else [])
      \<and> cleanup_queue_id st' = cleanup_queue_id st)"

definition outer_run ::
  "(string \<Rightarrow> string) \<Rightarrow> maps \<Rightarrow> int \<Rightarrow> string \<Rightarrow> nat \<Rightarrow> string list \<Rightarrow> cleanup_state
    \<Rightarrow> string list \<Rightarrow> cleanup_state \<Rightarrow> (nat \<times> string \<times> lookup) list \<Rightarrow> bool"
  where
  "outer_run unq m propagate addr arg argv st argv' st' tr =
     (lookups st' = lookups st @ tr
      \<and> tr \<noteq> []
      \<and> map1n_chain unq m propagate argv tr
      \<and> argv' = foldl (map1n_step unq) argv tr
      \<and> sorted (map fst tr)
      \<and> (\<forall>c \<in> set tr. arg \<le> fst c \<and> fst c < MAX_EXPANSION)
      \<and> (\<forall>c \<in> set (butlast tr). \<not> stopper unq c)
      \<and> (\<forall>s. arg \<le> s \<and> s \<le> fst (last tr) \<longrightarrow> slot_lookups s tr \<noteq> [])
      \<and> (\<forall>s. arg \<le> s \<and> s \<le> fst (last tr) \<longrightarrow>
               length (foldl (map1n_step unq) argv (lookups_before s tr)) \<le> MAX_EXPANSION)
      \<and> (\<forall>s. length (slot_lookups s tr) \<le> MAX_RECURSION
               \<and> (\<forall>c \<in> set (butlast (slot_lookups s tr)). goes_on1n unq c))
      \<and> (\<forall>s. arg \<le> s \<and> s < fst (last tr) \<longrightarrow> slot_left unq (slot_lookups s tr))
      \<and> (stopper unq (last tr)
          \<or> (slot_left unq (slot_lookups (fst (last tr)) tr)
              \<and> (Suc (fst (last tr)) < length argv' \<longrightarrow> MAX_EXPANSION < length argv')))
      \<and> cleanup_errs st' =
          (if snd (snd (last tr)) = Lookup_error then cleanup_errs st OR CLEANUP_STAT_WRITE
           else cleanup_errs st)
      \<and> cleanup_log st' =
          cleanup_log st
            @ concat (map (\<lambda>s. if nesting_capped unq (slot_lookups s tr)
                                 then [Msg_warn (nesting_text st m addr)] else [])
                        [arg ..< Suc (fst (last tr))])
            @ (if snd (snd (last tr)) = Lookup_error
               then [Msg_warn (lookup_problem_text st m addr)] else [])
            @ (if \<not> stopper unq (last tr) \<and> Suc (fst (last tr)) < length argv'
               then [Msg_warn (expansion_size_text st m addr)] else [])
      \<and> cleanup_queue_id st' = cleanup_queue_id st)"

section \<open>Bounce and defer logfiles: \<open>src/global/bounce_log.c\<close>\<close>

text \<open>
  Modelled from the spec: the stream library (\<open>vstream\<close>, \<open>vstring_vstream\<close>) is not
  among the sources. A logfile is a sequence of records \<open><recipient>: reason\<close>, each
  closed by a newline, and a record is deleted by a single-byte overwrite at a saved
  offset. A stream is the content of its file and a position in it. \<open>vstream_ftell\<close>
  gives the position; \<open>vstream_fseek\<close> to an absolute offset fails (result -1) for a
  negative offset and moves the position otherwise; \<open>VSTREAM_PUTC\<close> overwrites the byte
  at the position, or extends the file when the position is at or past its end (a gap
  reads as zero bytes), and advances by one; \<open>vstring_get_nonl\<close> reads up to and
  including the next newline, stores the line without the newline, and gives
  \<open>VSTREAM_EOF\<close> (here \<open>None\<close>) exactly when nothing could be read.
\<close>

record vstream =
  vs_path :: string
  vs_data :: string
  vs_pos :: nat

definition vstream_ftell :: "vstream \<Rightarrow> int" where
  "vstream_ftell fp = int (vs_pos fp)"

definition vstream_fseek :: "vstream \<Rightarrow> int \<Rightarrow> int \<times> vstream" where
  "vstream_fseek fp offset =
     (if offset < 0 then (- 1, fp) else (offset, fp\<lparr>vs_pos := nat offset\<rparr>))"

definition VSTREAM_PUTC :: "char \<Rightarrow> vstream \<Rightarrow> vstream" where
  "VSTREAM_PUTC ch fp =
     fp\<lparr>vs_data :=
          (if vs_pos fp < length (vs_data fp) then (vs_data fp)[vs_pos fp := ch]
           else vs_data fp @ replicate (vs_pos fp - length (vs_data fp)) (CHR 0x00) @ [ch]),
        vs_pos := Suc (vs_pos fp)\<rparr>"

definition vstring_get_nonl :: "vstream \<Rightarrow> char option \<times> string \<times> vstream" where
  "vstring_get_nonl fp =
     (let rest = drop (vs_pos fp) (vs_data fp);
          line = takeWhile (\<lambda>c. c \<noteq> CHR 0x0A) rest
      in if rest = [] then (None, [], fp)
         else if length line < length rest
         then (Some (CHR 0x0A), line, fp\<lparr>vs_pos := vs_pos fp + length line + 1\<rparr>)
         else (Some (last line), line, fp\<lparr>vs_pos := vs_pos fp + length line\<rparr>))"

text \<open>
  The C string held in a buffer ends at the first zero byte. \<open>printable(string, '?')\<close>
  (\<open>stringops\<close>, not among the sources; the module's own description says that
  information is sanitized for control and non-ASCII characters) replaces every byte
  outside the printable ASCII range. \<open>strstr\<close> gives the index of the first occurrence.
  \<open>ISSPACE\<close> is the C locale's \<open>isspace\<close>.
\<close>

definition cstr :: "string \<Rightarrow> string" where
  "cstr s = takeWhile (\<lambda>c. c \<noteq> CHR 0x00) s"

definition ISPRINT_ASCII :: "char \<Rightarrow> bool" where
  "ISPRINT_ASCII c = (32 \<le> (of_char c :: nat) \<and> (of_char c :: nat) \<le> 126)"

definition printable :: "string \<Rightarrow> char \<Rightarrow> string" where
  "printable s replacement = map (\<lambda>c. if ISPRINT_ASCII c then c else replacement) s"

fun strstr :: "string \<Rightarrow> string \<Rightarrow> nat option" where
  "strstr [] needle = (if needle = [] then Some 0 else None)"
| "strstr (c # s) needle =
     (if take (length needle) (c # s) = needle then Some 0
      else map_option Suc (strstr s needle))"

definition ISSPACE :: "char \<Rightarrow> bool" where
  "ISSPACE c = (c \<in> set [CHR '' '', CHR 0x09, CHR 0x0A, CHR 0x0B, CHR 0x0C, CHR 0x0D])"

text \<open>
  Modelled from the spec: \<open>bounce_log.h\<close> is not among the sources; the spec calls the
  mark of a deleted record the tombstone sentinel. It is the printable character \<open>#\<close>.
\<close>

definition BOUNCE_LOG_STAT_DELETED :: char where
  "BOUNCE_LOG_STAT_DELETED = CHR ''#''"

text \<open>
  The handle: stream, line buffer, and the fields of the record read last. \<open>bl_offset\<close>
  is the position at which the last read started. A handle made by \<open>bounce_log_forge\<close>
  has no stream and may not be used for file access; it is not modelled.
\<close>

record bounce_log =
  bl_fp :: vstream
  bl_buf :: string
  bl_recipient :: "string option"
  bl_status :: string
  bl_text :: "string option"
  bl_offset :: int

definition malformed_text :: "vstream \<Rightarrow> string \<Rightarrow> string" where
  "malformed_text fp cp = vs_path fp @ '': malformed record: '' @ take 30 cp @ ''...''"

text \<open>
  \<open>bounce_log_read\<close>: the result says whether a record was read (the routine returns its
  argument) or not (it returns a null pointer); the handle is updated in both cases, and
  the warnings are added to the log. In the second warning the source prints through the
  null pointer that \<open>strstr\<close> returned; the text printed there is left empty.
\<close>

function bounce_log_read :: "bounce_log \<Rightarrow> msg list \<Rightarrow> bool \<times> bounce_log \<times> msg list" where
  "bounce_log_read bp log =
     (let bp1 = bp\<lparr>bl_offset := vstream_ftell (bl_fp bp)\<rparr>;
          got = vstring_get_nonl (bl_fp bp1);
          bp2 = bp1\<lparr>bl_buf := fst (snd got), bl_fp := snd (snd got)\<rparr>
      in if fst got = None then (False, bp2, log)
         else if cstr (bl_buf bp2) = [] then bounce_log_read bp2 log
         else
           let cp = printable (cstr (bl_buf bp2)) (CHR ''?'');
               bp3 = bp2\<lparr>bl_buf := cp @ drop (length cp) (bl_buf bp2)\<rparr>
           in if hd cp = BOUNCE_LOG_STAT_DELETED then bounce_log_read bp3 log
              else if hd cp \<noteq> CHR ''<''
              then bounce_log_read bp3 (log @ [Msg_warn (malformed_text (bl_fp bp3) cp)])
              else
                let recipient = tl cp in
                case strstr recipient ''>: '' of
                  None \<Rightarrow>
                    bounce_log_read bp3 (log @ [Msg_warn (malformed_text (bl_fp bp3) [])])
                | Some k \<Rightarrow>
                    let rcpt = take k recipient;
                        text = dropWhile ISSPACE (drop (k + 2) recipient)
                    in (True,
                        bp3\<lparr>bl_buf := (bl_buf bp3)[Suc k := CHR 0x00],
                            bl_recipient :=
                               Some (if rcpt \<noteq> [] then rcpt else ''(MAILER-DAEMON)''),
                            bl_text := Some text\<rparr>,
                        log))"
  by pat_completeness auto
termination
  by (relation "measure (\<lambda>(bp, log). length (vs_data (bl_fp bp)) - vs_pos (bl_fp bp))")
    (auto simp: vstring_get_nonl_def Let_def split: if_splits)

declare bounce_log_read.simps [simp del]

text \<open>
  \<open>bounce_log_delrcpt\<close>: a failed seek is fatal (\<open>msg_fatal\<close> ends the process), which is
  the left summand.
\<close>

definition seek_error_text :: "vstream \<Rightarrow> string" where
  "seek_error_text fp = ''bounce logfile '' @ vs_path fp @ '' seek error: %m''"

definition bounce_log_delrcpt :: "bounce_log \<Rightarrow> string + bounce_log" where
  "bounce_log_delrcpt bp =
     (let current_offset = vstream_ftell (bl_fp bp);
          (r1, fp1) = vstream_fseek (bl_fp bp) (bl_offset bp)
      in if r1 < 0 then Inl (seek_error_text (bl_fp bp))
         else
           let fp2 = VSTREAM_PUTC BOUNCE_LOG_STAT_DELETED fp1;
               (r2, fp3) = vstream_fseek fp2 current_offset
           in if r2 < 0 then Inl (seek_error_text fp2)
              else Inr (bp\<lparr>bl_fp := fp3\<rparr>))"

text \<open>
  \<open>bounce_log_open\<close> on a file with the given content (the result of \<open>mail_queue_open\<close>),
  and a defer logfile with three records, the second of them deleted.
\<close>

definition MAIL_QUEUE_DEFER :: string where "MAIL_QUEUE_DEFER = ''defer''"

definition bounce_log_open :: "string \<Rightarrow> string \<Rightarrow> string \<Rightarrow> bounce_log" where
  "bounce_log_open queue_name queue_id content =
     \<lparr>bl_fp = \<lparr>vs_path = queue_name @ ''/'' @ queue_id, vs_data = content, vs_pos = 0\<rparr>,
      bl_buf = [],
      bl_recipient = None,
      bl_status = (if queue_name = MAIL_QUEUE_DEFER then ''4.0.0'' else ''5.0.0''),
      bl_text = None,
      bl_offset = 0\<rparr>"

definition defer_file :: string where
  "defer_file = ''<a@x>: slow'' @ [CHR 0x0A] @ ''#b@y>: gone'' @ [CHR 0x0A] @ ''<c@z>: busy''
     @ [CHR 0x0A]"

definition defer_log :: bounce_log where
  "defer_log = bounce_log_open ''defer'' ''A1'' defer_file"

text \<open>The handle after the first record was read and then marked as deleted.\<close>

definition defer_log_marked :: bounce_log where
  "defer_log_marked =
     \<lparr>bl_fp = \<lparr>vs_path = ''defer/A1'', vs_data = CHR ''#'' # tl defer_file, vs_pos = 12\<rparr>,
      bl_buf = ''<a@x'' @ [CHR 0x00] @ '': slow'',
      bl_recipient = Some ''a@x'',
      bl_status = ''4.0.0'',
      bl_text = Some ''slow'',
      bl_offset = 0\<rparr>"

section \<open>Local delivery, alias expansion: \<open>src/local/alias.c\<close>\<close>

text \<open>
  \<open>local.h\<close> and the libraries that \<open>deliver_alias\<close> calls are not among the sources.
  The delivery state keeps the fields that \<open>deliver_alias\<close> reads or writes; it is passed
  by value, so changes stay local to the call and to what it calls. The user attributes
  are the password-file entry whose rights are in force, or none after
  \<open>RESET_USER_ATTR\<close>. Verbose logging (\<open>msg_verbose\<close>) is left out.
\<close>

datatype expand_type = EXPAND_TYPE_ALIAS | EXPAND_TYPE_FWD | EXPAND_TYPE_INCL

record msg_attr =
  exp_from :: "string option"
  exp_type :: "expand_type option"
  sender :: string
  owner :: "string option"
  recipient :: string
  delivered :: string

record local_state =
  level :: int
  msg_attr :: msg_attr
  verify_request :: bool

type_synonym usr_attr = "nat option"

text \<open>
  What the callees answer is a parameter. A dictionary has a status descriptor, the
  owner that \<open>fstat\<close> reports (or a failure), and its lookup function, which gives the
  value, if any, and the value of \<open>dict_errno\<close> after the lookup. \<open>bounce_append\<close>,
  \<open>defer_append\<close> and \<open>sent\<close> give the delivery status for a reason text;
  \<open>deliver_token_string\<close> gives the status and the number of recipients found in the
  expansion.
\<close>

record dict =
  stat_fd :: int
  fstat_uid :: "nat option"
  dict_get :: "string \<Rightarrow> string option \<times> int"

record alias_env =
  alias_maps :: "string list"
  dict_handle :: "string \<Rightarrow> dict option"
  mypwuid :: "nat \<Rightarrow> nat option"
  maps_find :: "string \<Rightarrow> string option \<times> int"
  canon_addr_internal :: "string \<Rightarrow> string"
  deliver_token_string :: "local_state \<Rightarrow> usr_attr \<Rightarrow> string \<Rightarrow> int \<times> int"
  bounce_append :: "msg_attr \<Rightarrow> string \<Rightarrow> int"
  defer_append :: "msg_attr \<Rightarrow> string \<Rightarrow> int"
  sent :: "msg_attr \<Rightarrow> string \<Rightarrow> int"
  var_ownreq_special :: bool
  var_exp_own_alias :: bool

text \<open>What a call does besides returning, in order.\<close>

datatype event =
    Ev_warn string
  | Ev_bounce string
  | Ev_defer string
  | Ev_sent string
  | Ev_lookup string string
  | Ev_deliver local_state usr_attr string

text \<open>
  The process ends in \<open>msg_panic\<close> or \<open>msg_fatal\<close> (left summand), or the call returns
  \<open>YES\<close> or \<open>NO\<close> with the delivery status \<open>*statusp\<close> and the events.
\<close>

definition NO :: int where "NO = 0"
definition YES :: int where "YES = 1"

type_synonym alias_result = "string + (int \<times> int \<times> event list)"

definition dict_owner :: "alias_env \<Rightarrow> string \<Rightarrow> string + nat" where
  "dict_owner env table =
     (case dict_handle env table of
        None \<Rightarrow> Inl (''dict_owner: can't find dictionary: '' @ table)
      | Some d \<Rightarrow>
          if stat_fd d < 0 then Inr 0
          else (case fstat_uid d of
                  None \<Rightarrow> Inl (''dict_owner: fstat dictionary '' @ table @ '': %m'')
                | Some uid \<Rightarrow> Inr uid))"

text \<open>
  The body of the \<open>for\<close> loop once \<open>dict_get\<close> has found \<open>alias_result\<close> in table
  \<open>cpp\<close>; \<open>errno0\<close> is \<open>dict_errno\<close> after that lookup.
\<close>

definition alias_found ::
  "alias_env \<Rightarrow> local_state \<Rightarrow> usr_attr \<Rightarrow> string \<Rightarrow> string \<Rightarrow> string \<Rightarrow> int \<Rightarrow> event list
    \<Rightarrow> alias_result" where
  "alias_found env state usr_attr name cpp alias_result errno0 evs =
     (if verify_request state
      then Inr (YES, sent env (msg_attr state) (''aliased to '' @ alias_result),
                evs @ [Ev_sent (''aliased to '' @ alias_result)])
      else
        let state1 = state\<lparr>msg_attr := (msg_attr state)\<lparr>exp_type := Some EXPAND_TYPE_ALIAS\<rparr>\<rparr>
        in case dict_owner env cpp of
             Inl fatal \<Rightarrow> Inl fatal
           | Inr alias_uid \<Rightarrow>
               (if alias_uid \<noteq> 0 \<and> mypwuid env alias_uid = None
                then Inr (YES,
                          defer_append env (msg_attr state1) ''cannot find alias database owner'',
                          evs @ [Ev_warn (''cannot find alias database owner for '' @ cpp),
                                 Ev_defer ''cannot find alias database owner''])
                else
                  let usr_attr1 = (if alias_uid = 0 then None else mypwuid env alias_uid);
                      expansion = alias_result;
                      owner_name = (if var_ownreq_special env then Some (''owner-'' @ name)
                                    else None);
                      owner_rhs = (case owner_name of
                                     None \<Rightarrow> (None, errno0)
                                   | Some own \<Rightarrow> maps_find env own);
                      dict_errno = snd owner_rhs;
                      evs1 = (case owner_name of
                                None \<Rightarrow> evs
                              | Some own \<Rightarrow> evs @ [Ev_lookup ''alias_maps'' own]);
                      canon_owner =
                        (case (owner_name, fst owner_rhs) of
                           (Some own, Some rhs) \<Rightarrow>
                             Some (canon_addr_internal env
                                     (if var_exp_own_alias env then rhs else own))
                         | _ \<Rightarrow> None);
                      attr2 = (case canon_owner of
                                 Some c \<Rightarrow> (msg_attr state1)\<lparr>owner := Some c, sender := c\<rparr>
                               | None \<Rightarrow> (msg_attr state1)\<lparr>owner := None\<rparr>);
                      attr3 = attr2\<lparr>delivered := recipient attr2\<rparr>;
                      state3 = state1\<lparr>msg_attr := attr3\<rparr>;
                      (status1, alias_count, evs2) =
                        (if dict_errno \<noteq> 0
                         then (defer_append env attr3 ''alias database unavailable'', 0,
                               evs1 @ [Ev_defer ''alias database unavailable''])
                         else (fst (deliver_token_string env state3 usr_attr1 expansion),
                               snd (deliver_token_string env state3 usr_attr1 expansion),
                               evs1 @ [Ev_deliver state3 usr_attr1 expansion]))
                  in if alias_count < 1
                     then Inr (YES, defer_append env attr3 ''alias database unavailable'',
                               evs2 @ [Ev_warn (''no recipient in alias lookup result for ''
                                                  @ name),
                                       Ev_defer ''alias database unavailable''])
                     else Inr (YES, status1, evs2)))"

text \<open>The \<open>for\<close> loop over the tables of \<open>alias_maps\<close>.\<close>

fun alias_tables ::
  "alias_env \<Rightarrow> local_state \<Rightarrow> usr_attr \<Rightarrow> string \<Rightarrow> int \<Rightarrow> string list \<Rightarrow> event list
    \<Rightarrow> alias_result" where
  "alias_tables env state usr_attr name status [] evs = Inr (NO, status, evs)"
| "alias_tables env state usr_attr name status (cpp # rest) evs =
     (case dict_handle env cpp of
        None \<Rightarrow> Inl (''deliver_alias: dictionary not found: '' @ cpp)
      | Some d \<Rightarrow>
          (case dict_get d name of
             (Some alias_result, errno0) \<Rightarrow>
               alias_found env state usr_attr name cpp alias_result errno0
                 (evs @ [Ev_lookup cpp name])
           | (None, errno0) \<Rightarrow>
               if errno0 \<noteq> 0
               then Inr (YES, defer_append env (msg_attr state) ''alias database unavailable'',
                         evs @ [Ev_lookup cpp name, Ev_defer ''alias database unavailable''])
               else alias_tables env state usr_attr name status rest
                      (evs @ [Ev_lookup cpp name])))"

definition alias_loop_text :: "string \<Rightarrow> string" where
  "alias_loop_text name = ''possible alias database loop for '' @ name"

definition deliver_alias ::
  "alias_env \<Rightarrow> local_state \<Rightarrow> usr_attr \<Rightarrow> string \<Rightarrow> int \<Rightarrow> alias_result" where
  "deliver_alias env state0 usr_attr name status =
     (let state = state0\<lparr>level := level state0 + 1\<rparr> in
      if (case exp_from (msg_attr state) of
            None \<Rightarrow> False
          | Some from \<Rightarrow> strcaseeq from name)
      then Inr (NO, status, [])
      else if level state > 100
      then Inr (YES, bounce_append env (msg_attr state) (alias_loop_text name),
                [Ev_warn (alias_loop_text name), Ev_bounce (alias_loop_text name)])
      else
        alias_tables env (state\<lparr>msg_attr := (msg_attr state)\<lparr>exp_from := Some name\<rparr>\<rparr>)
          usr_attr name status (alias_maps env) [])"

text \<open>
  An alias database with one table in which \<open>staff\<close> lists itself, and a delivery state
  deep inside the expansion of \<open>staff\<close>.
\<close>

definition staff_env :: alias_env where
  "staff_env =
     \<lparr>alias_maps = [''hash:/etc/aliases''],
      dict_handle = (\<lambda>t. if t = ''hash:/etc/aliases''
         then Some \<lparr>stat_fd = 5, fstat_uid = Some 0,
                    dict_get = (\<lambda>k. if k = ''staff'' then (Some ''staff, alice'', 0)
                                     else (None, 0))\<rparr>
         else None),
      mypwuid = (\<lambda>_. None),
      maps_find = (\<lambda>_. (None, 0)),
      canon_addr_internal = (\<lambda>a. a),
      deliver_token_string = (\<lambda>_ _ _. (0, 2)),
      bounce_append = (\<lambda>_ _. 0),
      defer_append = (\<lambda>_ _. - 1),
      sent = (\<lambda>_ _. 0),
      var_ownreq_special = True,
      var_exp_own_alias = False\<rparr>"

definition staff_state :: "int \<Rightarrow> string option \<Rightarrow> local_state" where
  "staff_state lvl from =
     \<lparr>level = lvl,
      msg_attr = \<lparr>exp_from = from, exp_type = Some EXPAND_TYPE_ALIAS, sender = ''a@x'',
                  owner = None, recipient = ''staff@x'', delivered = ''staff@x''\<rparr>,
      verify_request = False\<rparr>"

section \<open>SMTP client, mail exchanger lookup: \<open>src/smtp/smtp_addr.c\<close>\<close>

text \<open>
  The DNS library (\<open>dns.h\<close>) is not among the sources. A \<open>DNS_RR\<close> holds the owner name,
  the record type, a preference and the record data; the module uses it for two kinds of
  records, and the model has a type for each: mail exchanger records, whose data is a host
  name, and address records, whose data is an Internet address. The preference is an
  unsigned 16-bit number.
\<close>

type_synonym in_addr = "32 word"

datatype rr_type = T_MX | T_A | T_CNAME

record mx_rr =
  mx_name :: string
  mx_type :: rr_type
  mx_pref :: nat
  mx_data :: string

record addr_rr =
  rr_name :: string
  pref :: nat
  data :: in_addr

datatype dns_status = DNS_OK | DNS_NOTFOUND | DNS_RETRY | DNS_FAIL

text \<open>
  What the resolver and the C library answer is a parameter: \<open>dns_lookup\<close> for type
  \<open>T_MX\<close> and for type \<open>T_A\<close> (status, records, and the text left in \<open>why\<close> when the
  status is not \<open>DNS_OK\<close>), \<open>inet_addr\<close>, and \<open>gethostbyname\<close> (address family and
  addresses). \<open>own_addrs\<close> is the result of \<open>own_inet_addr_list()\<close>.
\<close>

record resolver =
  lookup_mx :: "string \<Rightarrow> dns_status \<times> mx_rr list \<times> string"
  lookup_a :: "string \<Rightarrow> dns_status \<times> addr_rr list \<times> string"
  inet_addr :: "string \<Rightarrow> in_addr"
  gethostbyname :: "string \<Rightarrow> (int \<times> in_addr list) option"
  own_addrs :: "in_addr list"

record smtp_config =
  var_disable_dns :: bool
  var_ign_mx_lookup_err :: bool
  var_bestmx_transp :: string

datatype smtp_err = SMTP_NONE | SMTP_OK | SMTP_RETRY | SMTP_FAIL

record smtp_state =
  smtp_errno :: smtp_err
  why :: string
  smtp_log :: "msg list"

definition INADDR_NONE :: in_addr where "INADDR_NONE = 0xffffffff"
definition AF_INET :: int where "AF_INET = 2"

definition ISDIGIT :: "char \<Rightarrow> bool" where
  "ISDIGIT c = (c \<in> set ''0123456789'')"

definition smtp_warn :: "string \<Rightarrow> smtp_state \<Rightarrow> smtp_state" where
  "smtp_warn text st = st\<lparr>smtp_log := smtp_log st @ [Msg_warn text]\<rparr>"

text \<open>
  \<open>smtp_addr_one\<close>: \<open>dns_rr_append\<close> joins two lists, \<open>dns_rr_create\<close> makes one record.
\<close>

definition smtp_addr_one ::
  "smtp_config \<Rightarrow> resolver \<Rightarrow> addr_rr list \<Rightarrow> string \<Rightarrow> nat \<Rightarrow> smtp_state
    \<Rightarrow> addr_rr list \<times> smtp_state" where
  "smtp_addr_one cf rs addr_list host prf st =
     (if host \<noteq> [] \<and> ISDIGIT (hd host) \<and> inet_addr rs host \<noteq> INADDR_NONE
      then (addr_list @ [\<lparr>rr_name = host, pref = prf, data = inet_addr rs host\<rparr>], st)
      else if var_disable_dns cf then
        (case gethostbyname rs host of
           None \<Rightarrow> (addr_list, st\<lparr>why := host @ '': host not found'', smtp_errno := SMTP_FAIL\<rparr>)
         | Some (h_addrtype, h_addr_list) \<Rightarrow>
             if h_addrtype \<noteq> AF_INET
             then (addr_list,
                   (smtp_warn (''smtp_addr_one: unknown address family for '' @ host)
                      (st\<lparr>why := host @ '': host not found''\<rparr>))\<lparr>smtp_errno := SMTP_FAIL\<rparr>)
             else (addr_list @ map (\<lambda>a. \<lparr>rr_name = host, pref = prf, data = a\<rparr>) h_addr_list,
                   st))
      else
        (case lookup_a rs host of
           (DNS_OK, addr, w) \<Rightarrow> (addr_list @ map (\<lambda>rr. rr\<lparr>pref := prf\<rparr>) addr, st)
         | (DNS_NOTFOUND, addr, w) \<Rightarrow> (addr_list, st\<lparr>why := w, smtp_errno := SMTP_FAIL\<rparr>)
         | (DNS_FAIL, addr, w) \<Rightarrow> (addr_list, st\<lparr>why := w, smtp_errno := SMTP_FAIL\<rparr>)
         | (DNS_RETRY, addr, w) \<Rightarrow> (addr_list, st\<lparr>why := w, smtp_errno := SMTP_RETRY\<rparr>)))"

text \<open>\<open>smtp_addr_list\<close>: the loop over the exchangers, with the list built so far.\<close>

fun smtp_addr_list_loop ::
  "smtp_config \<Rightarrow> resolver \<Rightarrow> mx_rr list \<Rightarrow> addr_rr list \<Rightarrow> smtp_state
    \<Rightarrow> string + (addr_rr list \<times> smtp_state)" where
  "smtp_addr_list_loop cf rs [] addr_list st = Inr (addr_list, st)"
| "smtp_addr_list_loop cf rs (rr # mx_names) addr_list st =
     (if mx_type rr \<noteq> T_MX then Inl ''smtp_addr_list: bad resource type''
      else case smtp_addr_one cf rs addr_list (mx_data rr) (mx_pref rr) st of
             (addr_list', st') \<Rightarrow> smtp_addr_list_loop cf rs mx_names addr_list' st')"

definition smtp_addr_list ::
  "smtp_config \<Rightarrow> resolver \<Rightarrow> mx_rr list \<Rightarrow> smtp_state \<Rightarrow> string + (addr_rr list \<times> smtp_state)"
  where
  "smtp_addr_list cf rs mx_names st = smtp_addr_list_loop cf rs mx_names [] st"

text \<open>\<open>smtp_find_self\<close>: the first record whose address is one of the local addresses.\<close>

fun smtp_find_self :: "resolver \<Rightarrow> addr_rr list \<Rightarrow> addr_rr option" where
  "smtp_find_self rs [] = None"
| "smtp_find_self rs (addr # rest) =
     (if list_ex (\<lambda>s. data addr = s) (own_addrs rs) then Some addr
      else smtp_find_self rs rest)"

text \<open>
  \<open>smtp_truncate_self\<close>: at the first record with the given preference, that record and
  all that follow it are freed (\<open>dns_rr_free\<close> frees the chain) and the list ends there.
\<close>

fun smtp_truncate_self :: "addr_rr list \<Rightarrow> nat \<Rightarrow> addr_rr list" where
  "smtp_truncate_self [] prf = []"
| "smtp_truncate_self (addr # rest) prf =
     (if prf = pref addr then [] else addr # smtp_truncate_self rest prf)"

definition smtp_compare_mx :: "mx_rr \<Rightarrow> mx_rr \<Rightarrow> int" where
  "smtp_compare_mx a b = int (mx_pref a) - int (mx_pref b)"

text \<open>
  Modelled from the spec: \<open>dns_rr_sort\<close> is not among the sources. The spec says that
  the exchangers are sorted by ascending preference; the list is sorted with the
  comparison function that the caller passes, records that compare equal keeping their
  order.
\<close>

fun dns_rr_insert :: "('a \<Rightarrow> 'a \<Rightarrow> int) \<Rightarrow> 'a \<Rightarrow> 'a list \<Rightarrow> 'a list" where
  "dns_rr_insert compar x [] = [x]"
| "dns_rr_insert compar x (y # ys) =
     (if compar x y < 0 then x # y # ys else y # dns_rr_insert compar x ys)"

definition dns_rr_sort :: "'a list \<Rightarrow> ('a \<Rightarrow> 'a \<Rightarrow> int) \<Rightarrow> 'a list" where
  "dns_rr_sort list compar = foldl (\<lambda>sorted x. dns_rr_insert compar x sorted) [] list"

definition IMPOSSIBLE_PREFERENCE :: nat where "IMPOSSIBLE_PREFERENCE = 2 ^ 32 - 1"

definition PREF0 :: nat where "PREF0 = 0"

definition smtp_host_addr ::
  "smtp_config \<Rightarrow> resolver \<Rightarrow> string \<Rightarrow> smtp_state \<Rightarrow> addr_rr list \<times> smtp_state" where
  "smtp_host_addr cf rs host st = smtp_addr_one cf rs [] host PREF0 st"

text \<open>
  \<open>smtp_domain_addr\<close>: a panic is the left summand; otherwise the address list, the
  value stored in \<open>*found_myself\<close>, and the state with \<open>smtp_errno\<close> and \<open>why\<close>.
\<close>

definition smtp_domain_addr ::
  "smtp_config \<Rightarrow> resolver \<Rightarrow> string \<Rightarrow> smtp_state
    \<Rightarrow> string + (addr_rr list \<times> bool \<times> smtp_state)" where
  "smtp_domain_addr cf rs name st =
     (if var_disable_dns cf then Inl ''smtp_domain_addr: DNS lookup is disabled''
      else
        case lookup_mx rs name of
          (DNS_RETRY, mx_names, w) \<Rightarrow>
            (let st1 = st\<lparr>why := w, smtp_errno := SMTP_RETRY\<rparr> in
             if var_ign_mx_lookup_err cf
             then (case smtp_host_addr cf rs name st1 of (al, st2) \<Rightarrow> Inr (al, False, st2))
             else Inr ([], False, st1))
        | (DNS_FAIL, mx_names, w) \<Rightarrow>
            (let st1 = st\<lparr>why := w, smtp_errno := SMTP_FAIL\<rparr> in
             if var_ign_mx_lookup_err cf
             then (case smtp_host_addr cf rs name st1 of (al, st2) \<Rightarrow> Inr (al, False, st2))
             else Inr ([], False, st1))
        | (DNS_OK, mx_names0, w) \<Rightarrow>
            (let mx_names = dns_rr_sort mx_names0 smtp_compare_mx;
                 best_pref = (case mx_names of [] \<Rightarrow> IMPOSSIBLE_PREFERENCE
                              | rr # _ \<Rightarrow> mx_pref rr)
             in case smtp_addr_list cf rs mx_names st of
                  Inl panic \<Rightarrow> Inl panic
                | Inr (addr_list, st1) \<Rightarrow>
                    (case addr_list of
                       [] \<Rightarrow>
                         Inr ([], False,
                              smtp_warn (''no MX host for '' @ name @ '' has a valid A record'')
                                (st1\<lparr>smtp_errno := SMTP_RETRY\<rparr>))
                     | first # _ \<Rightarrow>
                         (let best_found = pref first in
                          case smtp_find_self rs addr_list of
                            None \<Rightarrow> Inr (addr_list, False, st1)
                          | Some self \<Rightarrow>
                              (let addr_list' = smtp_truncate_self addr_list (pref self) in
                               if addr_list' = [] then
                                 (if best_pref \<noteq> best_found
                                  then Inr ([], True,
                                            st1\<lparr>why := ''unable to find primary relay for ''
                                                          @ name,
                                                smtp_errno := SMTP_RETRY\<rparr>)
                                  else if var_bestmx_transp cf \<noteq> []
                                  then Inr ([], True, st1\<lparr>smtp_errno := SMTP_OK\<rparr>)
                                  else Inr ([], True,
                                            (smtp_warn (''mailer loop: best MX host for '' @ name
                                                          @ '' is local'') st1)
                                              \<lparr>why := ''mail for '' @ name
                                                        @ '' loops back to myself'',
                                               smtp_errno := SMTP_FAIL\<rparr>))
                               else Inr (addr_list', True, st1)))))
        | (DNS_NOTFOUND, mx_names, w) \<Rightarrow>
            (case smtp_host_addr cf rs name (st\<lparr>why := w\<rparr>) of
               (al, st2) \<Rightarrow> Inr (al, False, st2)))"

text \<open>
  A configuration without and one with a best-MX transport. A domain with three
  exchangers, the local host being the second; the same domain when the first exchanger
  has no address; and a domain whose only exchanger is the local host.
\<close>

definition dns_cf :: smtp_config where
  "dns_cf = \<lparr>var_disable_dns = False, var_ign_mx_lookup_err = False, var_bestmx_transp = []\<rparr>"

definition bestmx_cf :: smtp_config where
  "bestmx_cf = \<lparr>var_disable_dns = False, var_ign_mx_lookup_err = False,
                var_bestmx_transp = ''local''\<rparr>"

definition mx_of :: "string \<Rightarrow> nat \<Rightarrow> string \<Rightarrow> mx_rr" where
  "mx_of domain p host = \<lparr>mx_name = domain, mx_type = T_MX, mx_pref = p, mx_data = host\<rparr>"

definition three_mx :: "bool \<Rightarrow> resolver" where
  "three_mx first_resolves =
     \<lparr>lookup_mx = (\<lambda>d. if d = ''y''
         then (DNS_OK, [mx_of ''y'' 30 ''c.y'', mx_of ''y'' 10 ''a.y'', mx_of ''y'' 20 ''me.y''], [])
         else if d = ''solo''
         then (DNS_OK, [mx_of ''solo'' 10 ''me.y''], [])
         else (DNS_NOTFOUND, [], ''Host not found'')),
      lookup_a = (\<lambda>h. if h = ''a.y'' \<and> first_resolves
         then (DNS_OK, [\<lparr>rr_name = ''a.y'', pref = 0, data = 0x0A000001\<rparr>], [])
         else if h = ''me.y''
         then (DNS_OK, [\<lparr>rr_name = ''me.y'', pref = 0, data = 0x0A000002\<rparr>], [])
         else if h = ''c.y''
         then (DNS_OK, [\<lparr>rr_name = ''c.y'', pref = 0, data = 0x0A000003\<rparr>], [])
         else (DNS_NOTFOUND, [], ''Host not found'')),
      inet_addr = (\<lambda>_. INADDR_NONE),
      gethostbyname = (\<lambda>_. None),
      own_addrs = [0x7F000001, 0x0A000002]\<rparr>"

definition smtp0 :: smtp_state where
  "smtp0 = \<lparr>smtp_errno = SMTP_NONE, why = [], smtp_log = []\<rparr>"

text \<open>
  The exchangers of a domain as sorted, and the addresses found for them, in that order
  (the list that \<open>smtp_domain_addr\<close> then searches for the local host and truncates).
\<close>

definition mx_sorted :: "resolver \<Rightarrow> string \<Rightarrow> mx_rr list" where
  "mx_sorted rs name = dns_rr_sort (fst (snd (lookup_mx rs name))) smtp_compare_mx"

definition mx_addrs :: "smtp_config \<Rightarrow> resolver \<Rightarrow> string \<Rightarrow> smtp_state \<Rightarrow> addr_rr list" where
  "mx_addrs cf rs name st =
     (case smtp_addr_list cf rs (mx_sorted rs name) st of
        Inl panic \<Rightarrow> []
      | Inr (addr_list, st1) \<Rightarrow> addr_list)"

definition rr_a :: addr_rr where "rr_a = \<lparr>rr_name = ''a.y'', pref = 10, data = 0x0A000001\<rparr>"
definition rr_me :: addr_rr where "rr_me = \<lparr>rr_name = ''me.y'', pref = 20, data = 0x0A000002\<rparr>"
definition rr_c :: addr_rr where "rr_c = \<lparr>rr_name = ''c.y'', pref = 30, data = 0x0A000003\<rparr>"

section \<open>Queue manager, per-site queue entries: \<open>src/nqmgr/qmgr_entry.c\<close>\<close>

text \<open>
  \<open>qmgr.h\<close> is not among the sources. Following the design note of the spec, the
  structures live in tables indexed by handles (numbers), and a pointer is a handle; a
  structure that was freed stays in its table and leaves the set of live handles. Only
  the fields that \<open>qmgr_entry.c\<close> reads or writes are kept.
\<close>

record qmgr_entry =
  e_stream :: "nat option"
  e_message :: nat
  e_rcpt_len :: int
  e_queue :: nat
  e_peer :: nat

record qmgr_queue =
  q_transport :: nat
  todo :: "nat list"
  busy :: "nat list"
  todo_refcount :: int
  busy_refcount :: int
  window :: int
  q_blocker_tag :: int

record qmgr_peer =
  p_job :: nat
  p_queue :: nat
  p_refcount :: int
  entry_list :: "nat list"

record qmgr_job =
  j_transport :: nat
  selected_entries :: int
  j_rcpt_count :: int
  j_rcpt_limit :: int
  stack_level :: int

record qmgr_message =
  m_refcount :: int
  m_rcpt_count :: int
  rcpt_offset :: int
  m_job_list :: "nat list"

record qmgr_transport =
  t_blocker_tag :: int
  job_current :: "nat option"
  candidate_cache_current :: "nat option"
  t_job_list :: "nat list"
  init_dest_concurrency :: int

record qmgr =
  entries :: "nat \<Rightarrow> qmgr_entry"
  live_entries :: "nat list"
  next_entry :: nat
  queues :: "nat \<Rightarrow> qmgr_queue"
  live_queues :: "nat set"
  peers :: "nat \<Rightarrow> qmgr_peer"
  live_peers :: "nat set"
  jobs :: "nat \<Rightarrow> qmgr_job"
  messages :: "nat \<Rightarrow> qmgr_message"
  live_messages :: "nat set"
  transports :: "nat \<Rightarrow> qmgr_transport"
  qmgr_recipient_count :: int
  qmgr_queue_count :: int
  var_qmgr_rcpt_limit :: int

text \<open>
  Modelled from the spec: the list macros \<open>QMGR_LIST_UNLINK\<close> and \<open>QMGR_LIST_APPEND\<close>
  of \<open>qmgr.h\<close> are not among the sources. The spec has the entry removed from a list
  and appended to a list; the lists are doubly linked through the entry, so an entry
  occurs at most once in a list.
\<close>

definition QMGR_LIST_UNLINK :: "nat list \<Rightarrow> nat \<Rightarrow> nat list" where
  "QMGR_LIST_UNLINK head object = remove1 object head"

definition QMGR_LIST_APPEND :: "nat list \<Rightarrow> nat \<Rightarrow> nat list" where
  "QMGR_LIST_APPEND head object = head @ [object]"

definition QMGR_QUEUE_TODO :: int where "QMGR_QUEUE_TODO = 1"
definition QMGR_QUEUE_BUSY :: int where "QMGR_QUEUE_BUSY = 2"

definition upd_queue :: "nat \<Rightarrow> (qmgr_queue \<Rightarrow> qmgr_queue) \<Rightarrow> qmgr \<Rightarrow> qmgr" where
  "upd_queue q f s = s\<lparr>queues := (queues s)(q := f (queues s q))\<rparr>"

definition upd_peer :: "nat \<Rightarrow> (qmgr_peer \<Rightarrow> qmgr_peer) \<Rightarrow> qmgr \<Rightarrow> qmgr" where
  "upd_peer p f s = s\<lparr>peers := (peers s)(p := f (peers s p))\<rparr>"

definition upd_job :: "nat \<Rightarrow> (qmgr_job \<Rightarrow> qmgr_job) \<Rightarrow> qmgr \<Rightarrow> qmgr" where
  "upd_job j f s = s\<lparr>jobs := (jobs s)(j := f (jobs s j))\<rparr>"

definition upd_message :: "nat \<Rightarrow> (qmgr_message \<Rightarrow> qmgr_message) \<Rightarrow> qmgr \<Rightarrow> qmgr" where
  "upd_message m f s = s\<lparr>messages := (messages s)(m := f (messages s m))\<rparr>"

definition upd_transport :: "nat \<Rightarrow> (qmgr_transport \<Rightarrow> qmgr_transport) \<Rightarrow> qmgr \<Rightarrow> qmgr" where
  "upd_transport t f s = s\<lparr>transports := (transports s)(t := f (transports s t))\<rparr>"

text \<open>\<open>qmgr_entry_select\<close>: the entry selected, if any, and the new state.\<close>

definition qmgr_entry_select :: "nat \<Rightarrow> qmgr \<Rightarrow> nat option \<times> qmgr" where
  "qmgr_entry_select peer s =
     (case entry_list (peers s peer) of
        [] \<Rightarrow> (None, s)
      | entry # _ \<Rightarrow>
          let queue = e_queue (entries s entry);
              s1 = upd_queue queue (\<lambda>q. q\<lparr>todo := QMGR_LIST_UNLINK (todo q) entry\<rparr>) s;
              s2 = upd_queue queue (\<lambda>q. q\<lparr>todo_refcount := todo_refcount q - 1\<rparr>) s1;
              s3 = upd_queue queue (\<lambda>q. q\<lparr>busy := QMGR_LIST_APPEND (busy q) entry\<rparr>) s2;
              s4 = upd_queue queue (\<lambda>q. q\<lparr>busy_refcount := busy_refcount q + 1\<rparr>) s3;
              s5 = upd_peer peer
                     (\<lambda>p. p\<lparr>entry_list := QMGR_LIST_UNLINK (entry_list p) entry\<rparr>) s4;
              s6 = upd_job (p_job (peers s5 peer))
                     (\<lambda>j. j\<lparr>selected_entries := selected_entries j + 1\<rparr>) s5
          in (Some entry, s6))"

definition qmgr_entry_unselect :: "nat \<Rightarrow> qmgr \<Rightarrow> qmgr" where
  "qmgr_entry_unselect entry s =
     (let peer = e_peer (entries s entry);
          queue = e_queue (entries s entry);
          s1 = upd_queue queue (\<lambda>q. q\<lparr>busy := QMGR_LIST_UNLINK (busy q) entry\<rparr>) s;
          s2 = upd_queue queue (\<lambda>q. q\<lparr>busy_refcount := busy_refcount q - 1\<rparr>) s1;
          s3 = upd_queue queue (\<lambda>q. q\<lparr>todo := QMGR_LIST_APPEND (todo q) entry\<rparr>) s2;
          s4 = upd_queue queue (\<lambda>q. q\<lparr>todo_refcount := todo_refcount q + 1\<rparr>) s3;
          s5 = upd_peer peer (\<lambda>p. p\<lparr>entry_list := QMGR_LIST_APPEND (entry_list p) entry\<rparr>) s4
      in upd_job (p_job (peers s5 peer)) (\<lambda>j. j\<lparr>selected_entries := selected_entries j - 1\<rparr>) s5)"

text \<open>
  \<open>qmgr_entry_create\<close>: \<open>mymalloc\<close> gives a handle that is not in use, the next one of a
  counter. A dead queue is a panic (left summand).
\<close>

definition qmgr_entry_create :: "nat \<Rightarrow> nat \<Rightarrow> qmgr \<Rightarrow> string + (nat \<times> qmgr)" where
  "qmgr_entry_create peer message s =
     (let queue = p_queue (peers s peer) in
      if window (queues s queue) = 0 then Inl ''qmgr_entry_create: dead queue''
      else
        let entry = next_entry s;
            s1 = s\<lparr>next_entry := Suc entry, live_entries := live_entries s @ [entry],
                   entries := (entries s)(entry :=
                     \<lparr>e_stream = None, e_message = message, e_rcpt_len = 0,
                      e_queue = queue, e_peer = peer\<rparr>)\<rparr>;
            s2 = upd_message message (\<lambda>m. m\<lparr>m_refcount := m_refcount m + 1\<rparr>) s1;
            s3 = upd_peer peer (\<lambda>p. p\<lparr>entry_list := QMGR_LIST_APPEND (entry_list p) entry\<rparr>) s2;
            s4 = upd_peer peer (\<lambda>p. p\<lparr>p_refcount := p_refcount p + 1\<rparr>) s3;
            s5 = upd_queue queue (\<lambda>q. q\<lparr>todo := QMGR_LIST_APPEND (todo q) entry\<rparr>) s4;
            s6 = upd_queue queue (\<lambda>q. q\<lparr>todo_refcount := todo_refcount q + 1\<rparr>) s5
        in Inr (entry, s6))"

text \<open>
  Modelled from the spec: \<open>qmgr_peer_free\<close>, \<open>qmgr_queue_unthrottle\<close>,
  \<open>qmgr_queue_done\<close> and \<open>qmgr_active_done\<close> are not among the sources. By the spec, the
  in-core structures are destroyed when their reference counts drop to zero, a dead
  queue that is unthrottled gets a window again, and a message whose reference count
  reaches zero is finalized and leaves the in-core state.
\<close>

definition qmgr_peer_free :: "nat \<Rightarrow> qmgr \<Rightarrow> qmgr" where
  "qmgr_peer_free peer s = s\<lparr>live_peers := live_peers s - {peer}\<rparr>"

definition qmgr_queue_unthrottle :: "nat \<Rightarrow> qmgr \<Rightarrow> qmgr" where
  "qmgr_queue_unthrottle queue s =
     upd_queue queue
       (\<lambda>q. q\<lparr>window := init_dest_concurrency (transports s (q_transport q))\<rparr>) s"

definition qmgr_queue_done :: "nat \<Rightarrow> qmgr \<Rightarrow> qmgr" where
  "qmgr_queue_done queue s =
     s\<lparr>live_queues := live_queues s - {queue}, qmgr_queue_count := qmgr_queue_count s - 1\<rparr>"

definition qmgr_active_done :: "nat \<Rightarrow> qmgr \<Rightarrow> qmgr" where
  "qmgr_active_done message s = s\<lparr>live_messages := live_messages s - {message}\<rparr>"

text \<open>
  \<open>qmgr_job_move_limits\<close> (\<open>qmgr_job.c\<close>, not among the sources) moves unused recipient
  slots between jobs. It is a parameter that acts on the jobs, the messages and the
  transports.
\<close>

type_synonym move_limits =
  "nat \<Rightarrow> (nat \<Rightarrow> qmgr_job) \<times> (nat \<Rightarrow> qmgr_message) \<times> (nat \<Rightarrow> qmgr_transport)
    \<Rightarrow> (nat \<Rightarrow> qmgr_job) \<times> (nat \<Rightarrow> qmgr_message) \<times> (nat \<Rightarrow> qmgr_transport)"

definition qmgr_job_move_limits :: "move_limits \<Rightarrow> nat \<Rightarrow> qmgr \<Rightarrow> qmgr" where
  "qmgr_job_move_limits ml job s =
     (case ml job (jobs s, messages s, transports s) of
        (js, ms, ts) \<Rightarrow> s\<lparr>jobs := js, messages := ms, transports := ts\<rparr>)"

text \<open>The loop over the jobs of the message (the sponsors).\<close>

fun sponsor_loop :: "move_limits \<Rightarrow> nat \<Rightarrow> nat \<Rightarrow> nat list \<Rightarrow> qmgr \<Rightarrow> qmgr" where
  "sponsor_loop ml message job [] s = s"
| "sponsor_loop ml message job (sponsor # rest) s =
     (if j_rcpt_count (jobs s sponsor) \<ge> j_rcpt_limit (jobs s sponsor) \<or> sponsor = job
      then sponsor_loop ml message job rest s
      else if stack_level (jobs s sponsor) < 0 \<or> rcpt_offset (messages s message) = 0
      then sponsor_loop ml message job rest (qmgr_job_move_limits ml sponsor s)
      else sponsor_loop ml message job rest s)"

text \<open>
  \<open>qmgr_entry_done\<close>, block by block as in the source: take the entry off the in-core
  queue; decrease the recipient counts and free the entry; pass unused recipient slots
  on; lift the blocker mark of the queue; discard the peer when it has no more entries;
  discard the queue when it is empty and alive (or dead and the number of in-core queues
  is over the threshold); dispose of the message when it has no more references.
\<close>

definition done_unlink :: "nat \<Rightarrow> int \<Rightarrow> nat \<Rightarrow> nat \<Rightarrow> nat \<Rightarrow> qmgr \<Rightarrow> qmgr" where
  "done_unlink entry which queue peer job s =
     (if which = QMGR_QUEUE_BUSY
      then upd_queue queue (\<lambda>q. q\<lparr>busy_refcount := busy_refcount q - 1\<rparr>)
             (upd_queue queue (\<lambda>q. q\<lparr>busy := QMGR_LIST_UNLINK (busy q) entry\<rparr>) s)
      else upd_queue queue (\<lambda>q. q\<lparr>todo_refcount := todo_refcount q - 1\<rparr>)
             (upd_queue queue (\<lambda>q. q\<lparr>todo := QMGR_LIST_UNLINK (todo q) entry\<rparr>)
                (upd_job job (\<lambda>j. j\<lparr>selected_entries := selected_entries j + 1\<rparr>)
                   (upd_peer peer
                      (\<lambda>p. p\<lparr>entry_list := QMGR_LIST_UNLINK (entry_list p) entry\<rparr>) s))))"

definition done_counts :: "nat \<Rightarrow> nat \<Rightarrow> nat \<Rightarrow> qmgr \<Rightarrow> qmgr" where
  "done_counts entry message job s =
     (let len = e_rcpt_len (entries s entry);
          s1 = upd_job job (\<lambda>j. j\<lparr>j_rcpt_count := j_rcpt_count j - len\<rparr>) s;
          s2 = upd_message message (\<lambda>m. m\<lparr>m_rcpt_count := m_rcpt_count m - len\<rparr>) s1
      in s2\<lparr>qmgr_recipient_count := qmgr_recipient_count s2 - len,
            live_entries := removeAll entry (live_entries s2)\<rparr>)"

definition done_limits :: "move_limits \<Rightarrow> nat \<Rightarrow> nat \<Rightarrow> qmgr \<Rightarrow> qmgr" where
  "done_limits ml message job s =
     (let s1 = sponsor_loop ml message job (m_job_list (messages s message)) s
      in if rcpt_offset (messages s1 message) = 0 then qmgr_job_move_limits ml job s1 else s1)"

definition done_blocker :: "nat \<Rightarrow> nat \<Rightarrow> qmgr \<Rightarrow> qmgr" where
  "done_blocker queue transport s =
     (if q_blocker_tag (queues s queue) = t_blocker_tag (transports s transport)
      then
        let s1 = (if window (queues s queue) > busy_refcount (queues s queue)
                     \<and> todo (queues s queue) \<noteq> []
                  then upd_transport transport
                         (\<lambda>t. t\<lparr>t_blocker_tag := t_blocker_tag t + 2,
                                job_current := (case t_job_list t of [] \<Rightarrow> None
                                                | j # _ \<Rightarrow> Some j),
                                candidate_cache_current := None\<rparr>) s
                  else s)
        in if window (queues s1 queue) > busy_refcount (queues s1 queue)
              \<or> window (queues s1 queue) = 0
           then upd_queue queue (\<lambda>q. q\<lparr>q_blocker_tag := 0\<rparr>) s1
           else s1
      else s)"

definition done_peer :: "nat \<Rightarrow> qmgr \<Rightarrow> qmgr" where
  "done_peer peer s =
     (let s1 = upd_peer peer (\<lambda>p. p\<lparr>p_refcount := p_refcount p - 1\<rparr>) s
      in if p_refcount (peers s1 peer) = 0 then qmgr_peer_free peer s1 else s1)"

definition done_queue :: "nat \<Rightarrow> qmgr \<Rightarrow> qmgr" where
  "done_queue queue s =
     (if todo (queues s queue) = [] \<and> busy (queues s queue) = []
      then
        let s1 = (if window (queues s queue) = 0
                     \<and> qmgr_queue_count s > 2 * var_qmgr_rcpt_limit s
                  then qmgr_queue_unthrottle queue s else s)
        in if window (queues s1 queue) > 0 then qmgr_queue_done queue s1 else s1
      else s)"

definition done_message :: "nat \<Rightarrow> qmgr \<Rightarrow> qmgr" where
  "done_message message s =
     (let s1 = upd_message message (\<lambda>m. m\<lparr>m_refcount := m_refcount m - 1\<rparr>) s
      in if m_refcount (messages s1 message) = 0 then qmgr_active_done message s1 else s1)"

definition qmgr_entry_done :: "move_limits \<Rightarrow> nat \<Rightarrow> int \<Rightarrow> qmgr \<Rightarrow> string + qmgr" where
  "qmgr_entry_done ml entry which s =
     (let queue = e_queue (entries s entry);
          message = e_message (entries s entry);
          peer = e_peer (entries s entry);
          job = p_job (peers s peer);
          transport = j_transport (jobs s job)
      in if e_stream (entries s entry) \<noteq> None then Inl ''qmgr_entry_done: file is open''
         else if which \<noteq> QMGR_QUEUE_BUSY \<and> which \<noteq> QMGR_QUEUE_TODO
         then Inl ''qmgr_entry_done: bad queue spec''
         else Inr (done_message message
                    (done_queue queue
                      (done_peer peer
                        (done_blocker queue transport
                          (done_limits ml message job
                            (done_counts entry message job
                              (done_unlink entry which queue peer job s))))))))"

text \<open>
  The invariant. Every live entry has a live queue and a live peer, is on exactly one of
  the \<open>todo\<close> and \<open>busy\<close> lists of its queue, and is on its peer's list exactly when it
  is on \<open>todo\<close>. What makes this hold from step to step: the lists of live queues and
  peers have no duplicates and hold only live entries of that queue or peer, a peer's
  reference count is the number of live entries that point to it, and handles not yet
  given out are not live.
\<close>

definition entry_placed :: "qmgr \<Rightarrow> nat \<Rightarrow> bool" where
  "entry_placed s e =
     (let q = queues s (e_queue (entries s e)); p = peers s (e_peer (entries s e)) in
      e_queue (entries s e) \<in> live_queues s \<and> e_peer (entries s e) \<in> live_peers s
      \<and> (e \<in> set (todo q) \<longleftrightarrow> e \<notin> set (busy q))
      \<and> (e \<in> set (entry_list p) \<longleftrightarrow> e \<in> set (todo q)))"

definition queue_lists_ok :: "qmgr \<Rightarrow> nat \<Rightarrow> bool" where
  "queue_lists_ok s q =
     (distinct (todo (queues s q)) \<and> distinct (busy (queues s q))
      \<and> list_all (\<lambda>e. e \<in> set (live_entries s) \<and> e_queue (entries s e) = q)
           (todo (queues s q) @ busy (queues s q)))"

definition peer_list_ok :: "qmgr \<Rightarrow> nat \<Rightarrow> bool" where
  "peer_list_ok s p =
     (distinct (entry_list (peers s p))
      \<and> list_all (\<lambda>e. e \<in> set (live_entries s) \<and> e_peer (entries s e) = p)
           (entry_list (peers s p))
      \<and> p_refcount (peers s p) =
          int (length (filter (\<lambda>e. e_peer (entries s e) = p) (live_entries s))))"

definition qmgr_inv :: "qmgr \<Rightarrow> bool" where
  "qmgr_inv s =
     (distinct (live_entries s)
      \<and> list_all (\<lambda>e. e < next_entry s \<and> entry_placed s e) (live_entries s)
      \<and> (\<forall>q \<in> live_queues s. queue_lists_ok s q)
      \<and> (\<forall>p \<in> live_peers s. peer_list_ok s p))"

text \<open>
  The part of the state that the invariant speaks about, and the invariant over it.
\<close>

record core =
  c_live :: "nat list"
  c_next :: nat
  c_eq :: "nat \<Rightarrow> nat"
  c_ep :: "nat \<Rightarrow> nat"
  c_lq :: "nat set"
  c_lp :: "nat set"
  c_todo :: "nat \<Rightarrow> nat list"
  c_busy :: "nat \<Rightarrow> nat list"
  c_el :: "nat \<Rightarrow> nat list"
  c_rc :: "nat \<Rightarrow> int"

definition core_of :: "qmgr \<Rightarrow> core" where
  "core_of s =
     \<lparr>c_live = live_entries s, c_next = next_entry s,
      c_eq = (\<lambda>e. e_queue (entries s e)), c_ep = (\<lambda>e. e_peer (entries s e)),
      c_lq = live_queues s, c_lp = live_peers s,
      c_todo = (\<lambda>q. todo (queues s q)), c_busy = (\<lambda>q. busy (queues s q)),
      c_el = (\<lambda>p. entry_list (peers s p)), c_rc = (\<lambda>p. p_refcount (peers s p))\<rparr>"

definition core_inv :: "core \<Rightarrow> bool" where
  "core_inv c =
     (distinct (c_live c)
      \<and> (\<forall>e \<in> set (c_live c).
            e < c_next c \<and> c_eq c e \<in> c_lq c \<and> c_ep c e \<in> c_lp c
            \<and> (e \<in> set (c_todo c (c_eq c e)) \<longleftrightarrow> e \<notin> set (c_busy c (c_eq c e)))
            \<and> (e \<in> set (c_el c (c_ep c e)) \<longleftrightarrow> e \<in> set (c_todo c (c_eq c e))))
      \<and> (\<forall>q \<in> c_lq c.
            distinct (c_todo c q) \<and> distinct (c_busy c q)
            \<and> (\<forall>e \<in> set (c_todo c q) \<union> set (c_busy c q). e \<in> set (c_live c) \<and> c_eq c e = q))
      \<and> (\<forall>p \<in> c_lp c.
            distinct (c_el c p)
            \<and> (\<forall>e \<in> set (c_el c p). e \<in> set (c_live c) \<and> c_ep c e = p)
            \<and> c_rc c p = int (length (filter (\<lambda>e. c_ep c e = p) (c_live c)))))"

text \<open>
  A state to run the operations on: one transport, one job, one message, one queue with
  a window of 5 and one peer; two entries, 1 and 2, both waiting on \<open>todo\<close>.
\<close>

definition qmgr0 :: qmgr where
  "qmgr0 =
     \<lparr>entries = (\<lambda>_. \<lparr>e_stream = None, e_message = 0, e_rcpt_len = 1, e_queue = 0, e_peer = 0\<rparr>),
      live_entries = [1, 2], next_entry = 3,
      queues = (\<lambda>_. \<lparr>q_transport = 0, todo = [1, 2], busy = [], todo_refcount = 2,
                      busy_refcount = 0, window = 5, q_blocker_tag = 0\<rparr>),
      live_queues = {0},
      peers = (\<lambda>_. \<lparr>p_job = 0, p_queue = 0, p_refcount = 2, entry_list = [1, 2]\<rparr>),
      live_peers = {0},
      jobs = (\<lambda>_. \<lparr>j_transport = 0, selected_entries = 0, j_rcpt_count = 2,
                    j_rcpt_limit = 10, stack_level = 0\<rparr>),
      messages = (\<lambda>_. \<lparr>m_refcount = 2, m_rcpt_count = 2, rcpt_offset = 0, m_job_list = [0]\<rparr>),
      live_messages = {0},
      transports = (\<lambda>_. \<lparr>t_blocker_tag = 1, job_current = None, candidate_cache_current = None,
                          t_job_list = [0], init_dest_concurrency = 5\<rparr>),
      qmgr_recipient_count = 2, qmgr_queue_count = 1, var_qmgr_rcpt_limit = 10\<rparr>"

text \<open>A \<open>qmgr_job_move_limits\<close> that moves nothing.\<close>

definition no_move :: move_limits where
  "no_move job tables = tables"

section \<open>Properties of the trigger bus\<close>

text \<open>
  C10. \<open>fifo_trigger\<close> returns -1 exactly when the open fails, and 0 otherwise. When the
  open succeeds and \<open>write_buf\<close> or \<open>close\<close> fails, the result is still 0 and the failure
  shows at most in the log (only when \<open>msg_verbose\<close> is set); what the listener received
  is whatever the failed write left, possibly nothing. So 0 does not say that the wakeup
  bytes arrived.
\<close>

theorem fifo_trigger_result:
  "(fst (fifo_trigger os v service buf len timeout w) = - 1 \<longleftrightarrow> fo_open os service < 0)
   \<and> (0 \<le> fo_open os service \<longrightarrow>
        fst (fifo_trigger os v service buf len timeout w) = 0
        \<and> fifo_received (snd (fifo_trigger os v service buf len timeout w)) =
            fifo_received w @ [(service, snd (fo_write_buf os (fo_open os service) buf len timeout))]
        \<and> (\<not> v \<longrightarrow> fifo_log (snd (fifo_trigger os v service buf len timeout w)) = fifo_log w))"
  by (simp add: fifo_trigger_def Let_def non_blocking_def split: prod.splits)

theorem fifo_trigger_result_witness:
  "fo_open os_write_fails ''public/qmgr'' = 3
   \<and> fo_write_buf os_write_fails 3 ''W'' 1 0 = (- 1, [])
   \<and> fo_close os_write_fails 3 \<noteq> 0
   \<and> fst (fifo_trigger os_write_fails False ''public/qmgr'' ''W'' 1 0 world0) = 0
   \<and> fifo_received (snd (fifo_trigger os_write_fails False ''public/qmgr'' ''W'' 1 0 world0)) =
       [(''public/qmgr'', [])]
   \<and> fifo_log (snd (fifo_trigger os_write_fails False ''public/qmgr'' ''W'' 1 0 world0)) = []"
  using fifo_trigger_result [of os_write_fails False "''public/qmgr''" "''W''" 1 0 world0]
  by (simp add: os_write_fails_def world0_def)

section \<open>Properties of queue file finalization\<close>

text \<open>
  C2, as the claim states it, fails: the execute bits are given as soon as the flush and
  the \<open>fchmod\<close> succeed, before \<open>fsync\<close> and \<open>close\<close> are tried. Here \<open>fsync\<close> fails: the
  file has mode 0700 and the status is the write error.
\<close>

theorem finish_file_exec_bit_counterexample:
  "\<not> (has_exec_bit (file_mode (snd (snd
          (mail_stream_finish_file True os_fsync_fails incoming_stream new_queue_file))))
      \<longrightarrow> fst (mail_stream_finish_file True os_fsync_fails incoming_stream new_queue_file)
            = CLEANUP_STAT_OK)"
  by (simp add: mail_stream_finish_file_def Let_def os_fsync_fails_def new_queue_file_def
      has_exec_bit_def CLEANUP_STAT_OK_def CLEANUP_STAT_WRITE_def)

text \<open>
  C2, amended. The status is success exactly when the flush, the \<open>fchmod\<close>, the \<open>fsync\<close>
  (when built in) and the close all succeed, and is the write error otherwise; the wakeup
  trigger is sent exactly when the status is success; a file created with mode 0600 has
  execute bits afterwards exactly when the flush and the \<open>fchmod\<close> succeeded, so every
  successfully finalized file has them, and a file whose \<open>fsync\<close> or close failed has them
  too, with the write-error status telling the caller to remove it.
\<close>

theorem finish_file_status:
  assumes "mail_stream_finish_file has_fsync os info w = (status, info', w')"
  shows "(status = CLEANUP_STAT_OK \<longleftrightarrow>
            so_fflush os = 0 \<and> so_fchmod os = 0 \<and> (has_fsync \<longrightarrow> so_fsync os = 0)
            \<and> so_close os = 0)
         \<and> (status \<noteq> CLEANUP_STAT_OK \<longrightarrow> status = CLEANUP_STAT_WRITE)
         \<and> (triggers w' =
              (if status = CLEANUP_STAT_OK
               then triggers w @ [(ms_class info, ms_service info, [TRIGGER_REQ_WAKEUP])]
               else triggers w))
         \<and> (file_mode w = 384 \<longrightarrow>
              (has_exec_bit (file_mode w') \<longleftrightarrow> so_fflush os = 0 \<and> so_fchmod os = 0))
         \<and> (status = CLEANUP_STAT_OK \<longrightarrow> file_mode w' = 448)"
  using assms
  by (auto simp: mail_stream_finish_file_def Let_def has_exec_bit_def
      CLEANUP_STAT_OK_def CLEANUP_STAT_WRITE_def split: if_splits)

theorem finish_file_status_witness:
  "mail_stream_finish_file True os_all_well incoming_stream new_queue_file =
     (CLEANUP_STAT_OK, mail_stream_cleanup (incoming_stream\<lparr>ms_stream := None\<rparr>),
      new_queue_file\<lparr>file_mode := 448, file_synced := True, stream_closed := True,
        triggers := [(Some ''public'', Some ''qmgr'', [TRIGGER_REQ_WAKEUP])]\<rparr>)
   \<and> file_mode new_queue_file = 384
   \<and> has_exec_bit 448"
proof -
  have run: "mail_stream_finish_file True os_all_well incoming_stream new_queue_file =
     (CLEANUP_STAT_OK, mail_stream_cleanup (incoming_stream\<lparr>ms_stream := None\<rparr>),
      new_queue_file\<lparr>file_mode := 448, file_synced := True, stream_closed := True,
        triggers := [(Some ''public'', Some ''qmgr'', [TRIGGER_REQ_WAKEUP])]\<rparr>)"
    by (simp add: mail_stream_finish_file_def Let_def os_all_well_def new_queue_file_def
        incoming_stream_def CLEANUP_STAT_OK_def)
  from finish_file_status [OF run] show ?thesis
    using run by (simp add: new_queue_file_def os_all_well_def)
qed

section \<open>Properties of the one-to-one mapping\<close>

lemma map11_warning_queue_id:
  "cleanup_queue_id st = cleanup_queue_id st0 \<Longrightarrow> map11_warning st m c = map11_warning st0 m c"
  by (simp add: map11_warning_def multi_valued_text_def lookup_problem_text_def
      split: lookup.splits)

lemma nesting_text_queue_id:
  "cleanup_queue_id st = cleanup_queue_id st0 \<Longrightarrow> nesting_text st m a = nesting_text st0 m a"
  by (simp add: nesting_text_def)

lemma map11_run_Cons:
  assumes run: "map11_run m p b a st2 addr' st' tr"
    and ans: "mail_addr_map m addr p = Found a rest" and go: "\<not> strcaseeq addr a"
    and st2: "lookups st2 = lookups st @ [(0, addr, Found a rest)]"
      "cleanup_errs st2 = cleanup_errs st" "cleanup_queue_id st2 = cleanup_queue_id st"
      "cleanup_log st2 = cleanup_log st @ map11_warning st m (0, addr, Found a rest)"
  shows "map11_run m p (Suc b) addr st addr' st' ((0, addr, Found a rest) # tr)"
proof -
  let ?c = "(0, addr, Found a rest)"
  from run have r: "lookups st' = lookups st2 @ tr" "tr \<noteq> []" "length tr \<le> b"
    "map11_chain m p a tr" "\<forall>c \<in> set (butlast tr). goes_on11 c"
    "goes_on11 (last tr) \<longrightarrow> length tr = b" "addr' = lookup_value (last tr)"
    "cleanup_errs st' =
          (if snd (snd (last tr)) = Lookup_error then cleanup_errs st2 OR CLEANUP_STAT_WRITE
           else cleanup_errs st2)"
    "cleanup_log st' =
          cleanup_log st2 @ concat (map (map11_warning st2 m) tr)
            @ (if goes_on11 (last tr) then [Msg_warn (nesting_text st2 m addr')] else [])"
    "cleanup_queue_id st' = cleanup_queue_id st2"
    unfolding map11_run_def by blast+
  have c: "goes_on11 ?c" "lookup_value ?c = a" using go by (simp_all add: goes_on11_def lookup_value_def)
  have 1: "lookups st' = lookups st @ ?c # tr" using r(1) st2(1) by simp
  have 2: "?c # tr \<noteq> []" "length (?c # tr) \<le> Suc b" using r(3) by simp_all
  have 3: "map11_chain m p addr (?c # tr)" using r(4) ans c(2) by simp
  have 4: "\<forall>x \<in> set (butlast (?c # tr)). goes_on11 x" using r(2,5) c(1) by simp
  have 5: "goes_on11 (last (?c # tr)) \<longrightarrow> length (?c # tr) = Suc b" using r(2,6) by simp
  have 6: "addr' = lookup_value (last (?c # tr))" using r(2,7) by simp
  have 7: "cleanup_errs st' =
          (if snd (snd (last (?c # tr))) = Lookup_error then cleanup_errs st OR CLEANUP_STAT_WRITE
           else cleanup_errs st)" using r(2,8) st2(2) by simp
  have 8: "cleanup_log st' =
          cleanup_log st @ concat (map (map11_warning st m) (?c # tr))
            @ (if goes_on11 (last (?c # tr)) then [Msg_warn (nesting_text st m addr')] else [])"
  proof -
    have w: "map11_warning st2 m = map11_warning st m"
      by (rule ext) (rule map11_warning_queue_id [OF st2(3)])
    show ?thesis
      using r(2,9) st2(4) nesting_text_queue_id [OF st2(3)] by (simp add: w)
  qed
  have 9: "cleanup_queue_id st' = cleanup_queue_id st" using r(10) st2(3) by simp
  from 1 2 3 4 5 6 7 8 9 show ?thesis unfolding map11_run_def by blast
qed

lemma map11_loop_run:
  "map11_loop m p cnt addr st = (addr', st') \<Longrightarrow> cnt < MAX_RECURSION_11 \<Longrightarrow>
   \<exists>tr. map11_run m p (MAX_RECURSION_11 - cnt) addr st addr' st' tr"
proof (induction m p cnt addr st arbitrary: addr' st' rule: map11_loop.induct)
  case (1 m p cnt addr st)
  note unf = map11_loop.simps [of m p cnt addr st]
  note lt = \<open>cnt < MAX_RECURSION_11\<close>
  show ?case
  proof (cases "mail_addr_map m addr p")
    case Not_found
    with lt "1.prems" have res: "addr' = addr" "st' = note_lookup 0 addr Not_found st"
      by (auto simp: unf)
    have "map11_run m p (MAX_RECURSION_11 - cnt) addr st addr' st' [(0, addr, Not_found)]"
      using lt Not_found unfolding res
      by (simp add: map11_run_def note_lookup_def goes_on11_def lookup_value_def
          map11_warning_def)
    then show ?thesis ..
  next
    case Lookup_error
    with lt "1.prems" have res: "addr' = addr"
      "st' = (cleanup_warn (lookup_problem_text (note_lookup 0 addr Lookup_error st) m addr)
                (note_lookup 0 addr Lookup_error st))
               \<lparr>cleanup_errs := cleanup_errs st OR CLEANUP_STAT_WRITE\<rparr>"
      by (auto simp: unf Let_def note_lookup_def cleanup_warn_def)
    have "map11_run m p (MAX_RECURSION_11 - cnt) addr st addr' st' [(0, addr, Lookup_error)]"
      using lt Lookup_error unfolding res
      by (simp add: map11_run_def note_lookup_def cleanup_warn_def goes_on11_def
          lookup_value_def map11_warning_def lookup_problem_text_def)
    then show ?thesis ..
  next
    case (Found a rest)
    let ?c = "(0, addr, Found a rest)"
    define st1 where "st1 = note_lookup 0 addr (Found a rest) st"
    define st2 where
      "st2 = (if rest \<noteq> [] then cleanup_warn (multi_valued_text st1 m addr) st1 else st1)"
    have st2: "lookups st2 = lookups st @ [?c]"
      "cleanup_errs st2 = cleanup_errs st" "cleanup_queue_id st2 = cleanup_queue_id st"
      "cleanup_log st2 = cleanup_log st @ map11_warning st m ?c"
      by (simp_all add: st2_def st1_def note_lookup_def cleanup_warn_def map11_warning_def
          multi_valued_text_def)
    show ?thesis
    proof (cases "strcaseeq addr a")
      case True
      with lt Found "1.prems" have res: "addr' = a" "st' = st2"
        by (auto simp: unf Let_def st1_def st2_def)
      have "map11_run m p (MAX_RECURSION_11 - cnt) addr st addr' st' [?c]"
        using lt Found True st2 unfolding res
        by (simp add: map11_run_def goes_on11_def lookup_value_def)
      then show ?thesis ..
    next
      case False
      with lt Found "1.prems"
      have run: "map11_loop m p (Suc cnt) a st2 = (addr', st')"
        by (auto simp: unf Let_def st1_def st2_def split: if_splits)
      show ?thesis
      proof (cases "Suc cnt < MAX_RECURSION_11")
        case True
        from "1.IH" [OF lt Found st1_def st2_def refl refl refl False run True]
        obtain tr where "map11_run m p (MAX_RECURSION_11 - Suc cnt) a st2 addr' st' tr" ..
        from map11_run_Cons [OF this Found False st2]
        have "map11_run m p (Suc (MAX_RECURSION_11 - Suc cnt)) addr st addr' st' (?c # tr)" .
        moreover have "Suc (MAX_RECURSION_11 - Suc cnt) = MAX_RECURSION_11 - cnt"
          using lt by simp
        ultimately show ?thesis by auto
      next
        case last: False
        with lt have b: "MAX_RECURSION_11 - cnt = 1" by simp
        from last run have res: "addr' = a" "st' = cleanup_warn (nesting_text st2 m a) st2"
          by (auto simp: map11_loop.simps [of m p "Suc cnt" a st2])
        have "map11_run m p (MAX_RECURSION_11 - cnt) addr st addr' st' [?c]"
          using Found False st2 nesting_text_queue_id [OF st2(3)] unfolding res b
          by (simp add: map11_run_def goes_on11_def lookup_value_def cleanup_warn_def)
        then show ?thesis ..
      qed
    qed
  qed
qed

text \<open>
  C4, as the claim states it, fails. With a table that sends \<open>a\<close> to \<open>b\<close> and \<open>b\<close> to
  \<open>a\<close> the loop stops at the recursion limit: the last lookup neither matched its own key
  nor came back empty, and the error mask is untouched.
\<close>

theorem map11_fixed_point_counterexample:
  "\<not> (ended_self_match (lookups (snd (cleanup_map11_external swap_maps 0 ''a'' cleanup0)))
          (fst (cleanup_map11_external swap_maps 0 ''a'' cleanup0))
      \<or> ended_no_match (lookups (snd (cleanup_map11_external swap_maps 0 ''a'' cleanup0)))
          (fst (cleanup_map11_external swap_maps 0 ''a'' cleanup0))
      \<or> cleanup_errs (snd (cleanup_map11_external swap_maps 0 ''a'' cleanup0))
          AND CLEANUP_STAT_WRITE \<noteq> 0)"
proof -
  have "cleanup_map11_external swap_maps 0 ''a'' cleanup0 =
      (''a'', cleanup0\<lparr>cleanup_log := [Msg_warn (nesting_text cleanup0 swap_maps ''a'')],
         lookups := concat (replicate 5 [(0, ''a'', Found ''b'' []), (0, ''b'', Found ''a'' [])])\<rparr>)"
    by (simp add: cleanup_map11_external_def map11_loop.simps MAX_RECURSION_11_def
        mail_addr_map_def swap_maps_def strcaseeq_def tolower_c_def note_lookup_def
        cleanup_warn_def Let_def nesting_text_def cleanup0_def numeral_nat)
  then show ?thesis
    by (simp add: ended_self_match_def ended_no_match_def cleanup0_def strcaseeq_def
        tolower_c_def numeral_nat)
qed

text \<open>
  C4, amended. \<open>cleanup_map11_external\<close> always returns, after at least one and at most
  10 lookups. Every lookup asks the table for the current value of the address, the first
  one for the address given, and every lookup but the last gave a value that differs from
  its key. The address returned is the value after the last lookup: the first address of
  its answer, or the address looked up when there was no answer. So the run ends in one of
  four ways: the last lookup matched its own key up to case; it found nothing; it failed;
  or it was the tenth lookup and still gave a new value, which is the address returned.
  The write-error bit is added to \<open>cleanup_errs\<close> exactly when the last lookup failed. The
  log gains the warnings of the lookups (multi-valued answer, lookup problem) and, exactly
  in the fourth case, the nesting warning at the end.
\<close>

theorem cleanup_map11_external_outcome:
  assumes "cleanup_map11_external m p addr st = (addr', st')" and "tr = new_lookups st st'"
  shows "lookups st' = lookups st @ tr
         \<and> tr \<noteq> [] \<and> length tr \<le> MAX_RECURSION_11
         \<and> map11_chain m p addr tr
         \<and> (\<forall>c \<in> set (butlast tr). goes_on11 c)
         \<and> (goes_on11 (last tr) \<longrightarrow> length tr = MAX_RECURSION_11)
         \<and> addr' = lookup_value (last tr)
         \<and> cleanup_errs st' =
             (if snd (snd (last tr)) = Lookup_error then cleanup_errs st OR CLEANUP_STAT_WRITE
              else cleanup_errs st)
         \<and> cleanup_log st' =
             cleanup_log st @ concat (map (map11_warning st m) tr)
               @ (if goes_on11 (last tr) then [Msg_warn (nesting_text st m addr')] else [])
         \<and> cleanup_queue_id st' = cleanup_queue_id st"
proof -
  from assms(1) have "map11_loop m p 0 addr st = (addr', st')"
    by (simp add: cleanup_map11_external_def)
  from map11_loop_run [OF this] obtain tr0 where
    run: "map11_run m p MAX_RECURSION_11 addr st addr' st' tr0"
    by (auto simp: MAX_RECURSION_11_def)
  then have "lookups st' = lookups st @ tr0" by (simp add: map11_run_def)
  with assms(2) have "tr = tr0" by (simp add: new_lookups_def)
  with run show ?thesis unfolding map11_run_def by blast
qed

text \<open>
  The cyclic table runs into the limit and returns the value of the tenth lookup; the
  table with one entry ends with a lookup that finds nothing.
\<close>

theorem cleanup_map11_external_outcome_witness:
  "cleanup_map11_external swap_maps 0 ''a'' cleanup0 =
     (''a'',
      cleanup0\<lparr>cleanup_log := [Msg_warn ''A1B2C3: unreasonable canonical map nesting for a''],
        lookups := concat (replicate 5 [(0, ''a'', Found ''b'' []), (0, ''b'', Found ''a'' [])])\<rparr>)
   \<and> length (concat (replicate 5 [(0 :: nat, ''a'', Found ''b'' []), (0, ''b'', Found ''a'' [])]))
       = MAX_RECURSION_11
   \<and> map11_chain swap_maps 0 ''a''
       (concat (replicate 5 [(0, ''a'', Found ''b'' []), (0, ''b'', Found ''a'' [])]))
   \<and> goes_on11 (0, ''b'', Found ''a'' [])
   \<and> lookup_value (0, ''b'', Found ''a'' []) = ''a''
   \<and> cleanup_map11_external one_maps 0 ''joe'' cleanup0 =
     (''Joe@example.com'',
      cleanup0\<lparr>lookups := [(0, ''joe'', Found ''Joe@example.com'' []),
                            (0, ''Joe@example.com'', Not_found)]\<rparr>)
   \<and> map11_chain one_maps 0 ''joe''
       [(0, ''joe'', Found ''Joe@example.com'' []), (0, ''Joe@example.com'', Not_found)]
   \<and> \<not> goes_on11 (0, ''Joe@example.com'', Not_found)
   \<and> lookup_value (0, ''Joe@example.com'', Not_found) = ''Joe@example.com''"
proof -
  let ?t1 = "concat (replicate 5 [(0 :: nat, ''a'', Found ''b'' []), (0, ''b'', Found ''a'' [])])"
  let ?s1 = "cleanup0\<lparr>cleanup_log := [Msg_warn ''A1B2C3: unreasonable canonical map nesting for a''],
        lookups := ?t1\<rparr>"
  let ?t2 = "[(0 :: nat, ''joe'', Found ''Joe@example.com'' []), (0, ''Joe@example.com'', Not_found)]"
  let ?s2 = "cleanup0\<lparr>lookups := ?t2\<rparr>"
  have run1: "cleanup_map11_external swap_maps 0 ''a'' cleanup0 = (''a'', ?s1)"
    by (simp add: cleanup_map11_external_def map11_loop.simps MAX_RECURSION_11_def
        mail_addr_map_def swap_maps_def strcaseeq_def tolower_c_def note_lookup_def
        cleanup_warn_def Let_def nesting_text_def cleanup0_def numeral_nat)
  have run2: "cleanup_map11_external one_maps 0 ''joe'' cleanup0 = (''Joe@example.com'', ?s2)"
    by (simp add: cleanup_map11_external_def map11_loop.simps MAX_RECURSION_11_def
        mail_addr_map_def one_maps_def strcaseeq_def tolower_c_def note_lookup_def
        Let_def cleanup0_def)
  have tr1: "?t1 = new_lookups cleanup0 ?s1" by (simp add: new_lookups_def cleanup0_def)
  have tr2: "?t2 = new_lookups cleanup0 ?s2" by (simp add: new_lookups_def cleanup0_def)
  have last1: "last ?t1 = (0, ''b'', Found ''a'' [])" by (simp add: numeral_nat)
  have last2: "last ?t2 = (0, ''Joe@example.com'', Not_found)" by simp
  note r1 = cleanup_map11_external_outcome [OF run1 tr1, unfolded last1]
  note r2 = cleanup_map11_external_outcome [OF run2 tr2, unfolded last2]
  have g1: "goes_on11 (0, ''b'', Found ''a'' [])"
    by (simp add: goes_on11_def strcaseeq_def tolower_c_def)
  have g2: "\<not> goes_on11 (0, ''Joe@example.com'', Not_found)" by (simp add: goes_on11_def)
  from r1 g1 have a: "length ?t1 = MAX_RECURSION_11" "map11_chain swap_maps 0 ''a'' ?t1"
    "''a'' = lookup_value (0, ''b'', Found ''a'' [])" by blast+
  from r2 have b: "map11_chain one_maps 0 ''joe'' ?t2"
    "''Joe@example.com'' = lookup_value (0, ''Joe@example.com'', Not_found)" by blast+
  from run1 a(1,2) g1 a(3) [symmetric] run2 b(1) g2 b(2) [symmetric]
  show ?thesis by (intro conjI)
qed

section \<open>Properties of the one-to-many expansion\<close>

lemma map1n_store_later:
  "map1n_store unq lhs arg (Suc i) xs (argv, self) =
     (argv @ map unq xs, self \<or> list_ex (\<lambda>x. strcaseeq lhs (unq x)) xs)"
  by (induction xs arbitrary: i argv self) (auto simp: Let_def)

lemma map1n_store_first:
  "map1n_store unq lhs arg 0 (x # xs) (argv, self) =
     (argv[arg := unq x] @ map unq xs, self \<or> list_ex (\<lambda>x. strcaseeq lhs (unq x)) (x # xs))"
  by (auto simp: Let_def map1n_store_later)

lemma goes_on1n_iff:
  "goes_on1n unq c \<longleftrightarrow> \<not> stopper unq c \<and> snd (snd c) \<noteq> Not_found"
  by (cases "snd (snd c)") (simp_all add: goes_on1n_def stopper_def expands_to_self_def)

lemma inner_run_single:
  assumes "c = (arg, argv ! arg, r)" and "r = mail_addr_map m (argv ! arg) p"
    and "arg < length argv" and "0 < b" and "goes_on1n unq c \<longrightarrow> b = 1"
    and "lv = (if stopper unq c then Return else Next_slot)" and "lv = Next_slot \<longrightarrow> \<not> self'"
    and "argv' = map1n_step unq argv c"
    and "lookups st' = lookups st @ [c]"
    and "cleanup_errs st' =
          (if r = Lookup_error then cleanup_errs st OR CLEANUP_STAT_WRITE else cleanup_errs st)"
    and "cleanup_log st' =
          cleanup_log st
            @ (if r = Lookup_error then [Msg_warn (lookup_problem_text st m addr)] else [])
            @ (if goes_on1n unq c then [Msg_warn (nesting_text st m addr)] else [])"
    and "cleanup_queue_id st' = cleanup_queue_id st"
  shows "inner_run unq m p addr arg b argv st lv self' argv' st' [c]"
  unfolding inner_run_def using assms by simp

lemma inner_run_Cons:
  assumes run: "inner_run unq m p addr arg b argv1 st1 lv self' argv' st' tr"
    and c: "c = (arg, argv ! arg, Found a rest)"
    and ans: "mail_addr_map m (argv ! arg) p = Found a rest"
    and go: "goes_on1n unq c" and arg: "arg < length argv"
    and argv1: "argv1 = map1n_step unq argv c"
    and st1: "lookups st1 = lookups st @ [c]" "cleanup_errs st1 = cleanup_errs st"
      "cleanup_queue_id st1 = cleanup_queue_id st" "cleanup_log st1 = cleanup_log st"
  shows "inner_run unq m p addr arg (Suc b) argv st lv self' argv' st' (c # tr)"
proof -
  from run have r: "lookups st' = lookups st1 @ tr" "tr \<noteq> []" "length tr \<le> b"
    "\<forall>c \<in> set tr. fst c = arg" "map1n_chain unq m p argv1 tr"
    "argv' = foldl (map1n_step unq) argv1 tr" "\<forall>c \<in> set (butlast tr). goes_on1n unq c"
    "goes_on1n unq (last tr) \<longrightarrow> length tr = b"
    "lv = (if stopper unq (last tr) then Return else Next_slot)"
    "lv = Next_slot \<longrightarrow> \<not> self'"
    "cleanup_errs st' =
          (if snd (snd (last tr)) = Lookup_error then cleanup_errs st1 OR CLEANUP_STAT_WRITE
           else cleanup_errs st1)"
    "cleanup_log st' =
          cleanup_log st1
            @ (if snd (snd (last tr)) = Lookup_error
               then [Msg_warn (lookup_problem_text st1 m addr)] else [])
            @ (if goes_on1n unq (last tr) then [Msg_warn (nesting_text st1 m addr)] else [])"
    "cleanup_queue_id st' = cleanup_queue_id st1"
    unfolding inner_run_def by blast+
  have texts: "lookup_problem_text st1 m addr = lookup_problem_text st m addr"
    "nesting_text st1 m addr = nesting_text st m addr"
    using st1(3) by (simp_all add: lookup_problem_text_def nesting_text_def)
  have n1: "lookups st' = lookups st @ c # tr" using r(1) st1(1) by simp
  have n2: "c # tr \<noteq> []" "length (c # tr) \<le> Suc b" using r(3) by simp_all
  have n3: "\<forall>x \<in> set (c # tr). fst x = arg" using r(4) c by simp
  have n4: "map1n_chain unq m p argv (c # tr)" using r(5) c ans arg argv1 by simp
  have n5: "argv' = foldl (map1n_step unq) argv (c # tr)" using r(6) argv1 by simp
  have n6: "\<forall>x \<in> set (butlast (c # tr)). goes_on1n unq x" using r(2,7) go by simp
  have n7: "goes_on1n unq (last (c # tr)) \<longrightarrow> length (c # tr) = Suc b" using r(2,8) by simp
  have n8: "lv = (if stopper unq (last (c # tr)) then Return else Next_slot)"
    using r(2,9) by simp
  have n9: "cleanup_errs st' =
          (if snd (snd (last (c # tr))) = Lookup_error
           then cleanup_errs st OR CLEANUP_STAT_WRITE else cleanup_errs st)"
    using r(2,11) st1(2) by simp
  have n10: "cleanup_log st' =
          cleanup_log st
            @ (if snd (snd (last (c # tr))) = Lookup_error
               then [Msg_warn (lookup_problem_text st m addr)] else [])
            @ (if goes_on1n unq (last (c # tr))
               then [Msg_warn (nesting_text st m addr)] else [])"
    using r(2,12) st1(4) texts by simp
  have n11: "cleanup_queue_id st' = cleanup_queue_id st" using r(13) st1(3) by simp
  from n1 n2 n3 n4 n5 n6 n7 n8 r(10) n9 n10 n11 show ?thesis unfolding inner_run_def by blast
qed

lemma map1n_inner_run:
  "map1n_inner unq m p addr arg cnt self argv st = (lv, self', argv', st') \<Longrightarrow>
   cnt < MAX_RECURSION \<Longrightarrow> \<not> self \<Longrightarrow> arg < length argv \<Longrightarrow>
   \<exists>tr. inner_run unq m p addr arg (MAX_RECURSION - cnt) argv st lv self' argv' st' tr"
proof (induction unq m p addr arg cnt self argv st arbitrary: lv self' argv' st'
    rule: map1n_inner.induct)
  case (1 unq m p addr arg cnt self argv st)
  note unf = map1n_inner.simps [of unq m p addr arg cnt self argv st]
  note lt = \<open>cnt < MAX_RECURSION\<close>
  then have nge: "\<not> cnt \<ge> MAX_RECURSION" by simp
  note run0 = "1.prems"(1) [unfolded unf]
  note self0 = \<open>\<not> self\<close>
  note arg = \<open>arg < length argv\<close>
  show ?case
  proof (cases "mail_addr_map m (argv ! arg) p")
    case Not_found
    with nge run0 have res: "lv = Next_slot" "self' = self" "argv' = argv"
      "st' = note_lookup arg (argv ! arg) Not_found st" by auto
    have "inner_run unq m p addr arg (MAX_RECURSION - cnt) argv st lv self' argv' st'
        [(arg, argv ! arg, Not_found)]"
    proof (rule inner_run_single [OF refl Not_found [symmetric] arg])
      show "0 < MAX_RECURSION - cnt" using lt by simp
    qed (simp_all add: res self0 note_lookup_def goes_on1n_def stopper_def
        expands_to_self_def map1n_step_def)
    then show ?thesis ..
  next
    case Lookup_error
    with nge run0 have res: "lv = Return" "self' = self" "argv' = argv"
      "st' = (cleanup_warn
                (lookup_problem_text (note_lookup arg (argv ! arg) Lookup_error st) m addr)
                (note_lookup arg (argv ! arg) Lookup_error st))
               \<lparr>cleanup_errs := cleanup_errs st OR CLEANUP_STAT_WRITE\<rparr>"
      by (auto simp: Let_def note_lookup_def cleanup_warn_def)
    have "inner_run unq m p addr arg (MAX_RECURSION - cnt) argv st lv self' argv' st'
        [(arg, argv ! arg, Lookup_error)]"
    proof (rule inner_run_single [OF refl Lookup_error [symmetric] arg])
      show "0 < MAX_RECURSION - cnt" using lt by simp
    qed (simp_all add: res note_lookup_def cleanup_warn_def goes_on1n_def stopper_def
        map1n_step_def lookup_problem_text_def)
    then show ?thesis ..
  next
    case (Found a rest)
    define c where "c = (arg, argv ! arg, Found a rest)"
    define st1 where "st1 = note_lookup arg (argv ! arg) (Found a rest) st"
    define argv1 where "argv1 = argv[arg := unq a] @ map unq rest"
    define hit where "hit = list_ex (\<lambda>x. strcaseeq (argv ! arg) (unq x)) (a # rest)"
    have store: "map1n_store unq (argv ! arg) arg 0 (a # rest) (argv, self) = (argv1, hit)"
      using \<open>\<not> self\<close> by (simp only: map1n_store_first argv1_def hit_def) simp
    have st1: "lookups st1 = lookups st @ [c]" "cleanup_errs st1 = cleanup_errs st"
      "cleanup_queue_id st1 = cleanup_queue_id st" "cleanup_log st1 = cleanup_log st"
      by (simp_all add: st1_def note_lookup_def c_def)
    have hit: "stopper unq c = hit" "goes_on1n unq c = (\<not> hit)"
      by (simp_all add: stopper_def goes_on1n_def expands_to_self_def c_def hit_def)
    have step: "argv1 = map1n_step unq argv c" by (simp add: argv1_def map1n_step_def c_def)
    show ?thesis
    proof (cases hit)
      case True
      with nge Found run0 store
      have res: "lv = Return" "self' = True" "argv' = argv1" "st' = st1"
        by (auto simp: Let_def st1_def)
      have "inner_run unq m p addr arg (MAX_RECURSION - cnt) argv st lv self' argv' st' [c]"
      proof (rule inner_run_single [OF c_def Found [symmetric] arg])
        show "0 < MAX_RECURSION - cnt" using lt by simp
      qed (simp_all add: res hit True step st1)
      then show ?thesis ..
    next
      case nohit: False
      with nge Found run0 store
      have run: "map1n_inner unq m p addr arg (Suc cnt) hit argv1 st1 = (lv, self', argv', st')"
        by (auto simp: Let_def st1_def)
      have len1: "arg < length argv1" using arg by (simp add: argv1_def)
      show ?thesis
      proof (cases "Suc cnt < MAX_RECURSION")
        case True
        from "1.IH" [OF nge Found st1_def refl store [symmetric] refl nohit run True nohit len1]
        obtain tr where
          "inner_run unq m p addr arg (MAX_RECURSION - Suc cnt) argv1 st1 lv self' argv' st' tr" ..
        from inner_run_Cons [OF this c_def Found _ arg step st1] hit nohit
        have "inner_run unq m p addr arg (Suc (MAX_RECURSION - Suc cnt)) argv st lv self' argv' st'
            (c # tr)"
          by simp
        moreover have "Suc (MAX_RECURSION - Suc cnt) = MAX_RECURSION - cnt" using lt by simp
        ultimately show ?thesis by auto
      next
        case False
        with lt have b: "MAX_RECURSION - cnt = 1" by simp
        from False run have res: "lv = Next_slot" "self' = hit" "argv' = argv1"
          "st' = cleanup_warn (nesting_text st1 m addr) st1"
          by (auto simp: map1n_inner.simps [of unq m p addr arg "Suc cnt" hit argv1 st1])
        have texts: "nesting_text st1 m addr = nesting_text st m addr"
          using st1(3) by (simp add: nesting_text_def)
        have "inner_run unq m p addr arg (MAX_RECURSION - cnt) argv st lv self' argv' st' [c]"
        proof (rule inner_run_single [OF c_def Found [symmetric] arg])
          show "0 < MAX_RECURSION - cnt" using lt by simp
        qed (simp_all add: res hit nohit step st1 texts b cleanup_warn_def)
        then show ?thesis ..
      qed
    qed
  qed
qed

lemma map1n_chain_append:
  "map1n_chain unq m p argv (tr1 @ tr2) \<longleftrightarrow>
     map1n_chain unq m p argv tr1 \<and> map1n_chain unq m p (foldl (map1n_step unq) argv tr1) tr2"
  by (induction tr1 arbitrary: argv) auto

lemma length_map1n_step: "length argv \<le> length (map1n_step unq argv c)"
  by (simp add: map1n_step_def split: lookup.splits)

lemma length_foldl_step: "length argv \<le> length (foldl (map1n_step unq) argv tr)"
proof (induction tr arbitrary: argv)
  case Nil
  show ?case by simp
next
  case (Cons c tr)
  from length_map1n_step [of argv unq c] Cons [of "map1n_step unq argv c"]
  show ?case by simp
qed

lemma slot_lookups_same:
  "\<forall>c \<in> set tr. fst c = arg \<Longrightarrow> slot_lookups s tr = (if s = arg then tr else [])"
  by (induction tr) (auto simp: slot_lookups_def)

lemma slot_lookups_above:
  "\<forall>c \<in> set tr. Suc arg \<le> fst c \<Longrightarrow> slot_lookups arg tr = []"
  by (induction tr) (auto simp: slot_lookups_def)

lemma slot_lookups_append:
  assumes "\<forall>c \<in> set tr1. fst c = arg" and "\<forall>c \<in> set tr2. Suc arg \<le> fst c"
  shows "slot_lookups s (tr1 @ tr2) = (if s = arg then tr1 else slot_lookups s tr2)"
proof -
  have "slot_lookups s (tr1 @ tr2) = slot_lookups s tr1 @ slot_lookups s tr2"
    by (simp add: slot_lookups_def)
  with slot_lookups_same [OF assms(1), of s] slot_lookups_above [OF assms(2)]
  show ?thesis by simp
qed

lemma sorted_same_slot: "\<forall>c \<in> set tr. fst c = (arg :: nat) \<Longrightarrow> sorted (map fst tr)"
  by (induction tr) auto

lemma last_same_slot: "\<forall>c \<in> set tr. fst c = arg \<Longrightarrow> tr \<noteq> [] \<Longrightarrow> fst (last tr) = arg"
  by simp

lemma inner_run_slot_left:
  assumes "inner_run unq m p addr arg MAX_RECURSION argv st Next_slot self1 argv1 st1 tr"
  shows "\<not> stopper unq (last tr)" and "slot_left unq tr"
    and "nesting_capped unq tr = goes_on1n unq (last tr)"
    and "snd (snd (last tr)) \<noteq> Lookup_error"
proof -
  from assms have r: "tr \<noteq> []" "goes_on1n unq (last tr) \<longrightarrow> length tr = MAX_RECURSION"
    "Next_slot = (if stopper unq (last tr) then Return else Next_slot)"
    unfolding inner_run_def by blast+
  from r(3) show ns: "\<not> stopper unq (last tr)" by (simp split: if_splits)
  then show "snd (snd (last tr)) \<noteq> Lookup_error" by (simp add: stopper_def)
  from r(2) show cap: "nesting_capped unq tr = goes_on1n unq (last tr)"
    by (auto simp: nesting_capped_def)
  from ns have "snd (snd (last tr)) = Not_found \<or> goes_on1n unq (last tr)"
    by (simp add: goes_on1n_iff)
  with r(1) cap show "slot_left unq tr" by (simp add: slot_left_def)
qed

lemma outer_runI:
  assumes "lookups st' = lookups st @ tr" and "tr \<noteq> []"
    and "map1n_chain unq m p argv tr" and "argv' = foldl (map1n_step unq) argv tr"
    and "sorted (map fst tr)" and "\<forall>c \<in> set tr. arg \<le> fst c \<and> fst c < MAX_EXPANSION"
    and "\<forall>c \<in> set (butlast tr). \<not> stopper unq c"
    and "\<And>s. arg \<le> s \<Longrightarrow> s \<le> fst (last tr) \<Longrightarrow> slot_lookups s tr \<noteq> []"
    and "\<And>s. arg \<le> s \<Longrightarrow> s \<le> fst (last tr) \<Longrightarrow>
           length (foldl (map1n_step unq) argv (lookups_before s tr)) \<le> MAX_EXPANSION"
    and "\<And>s. length (slot_lookups s tr) \<le> MAX_RECURSION"
    and "\<And>s. \<forall>c \<in> set (butlast (slot_lookups s tr)). goes_on1n unq c"
    and "\<And>s. arg \<le> s \<Longrightarrow> s < fst (last tr) \<Longrightarrow> slot_left unq (slot_lookups s tr)"
    and "stopper unq (last tr)
          \<or> (slot_left unq (slot_lookups (fst (last tr)) tr)
              \<and> (Suc (fst (last tr)) < length argv' \<longrightarrow> MAX_EXPANSION < length argv'))"
    and "cleanup_errs st' =
          (if snd (snd (last tr)) = Lookup_error then cleanup_errs st OR CLEANUP_STAT_WRITE
           else cleanup_errs st)"
    and "cleanup_log st' =
          cleanup_log st
            @ concat (map (\<lambda>s. if nesting_capped unq (slot_lookups s tr)
                                 then [Msg_warn (nesting_text st m addr)] else [])
                        [arg ..< Suc (fst (last tr))])
            @ (if snd (snd (last tr)) = Lookup_error
               then [Msg_warn (lookup_problem_text st m addr)] else [])
            @ (if \<not> stopper unq (last tr) \<and> Suc (fst (last tr)) < length argv'
               then [Msg_warn (expansion_size_text st m addr)] else [])"
    and "cleanup_queue_id st' = cleanup_queue_id st"
  shows "outer_run unq m p addr arg argv st argv' st' tr"
  unfolding outer_run_def using assms by blast

lemma outer_runD:
  assumes "outer_run unq m p addr arg argv st argv' st' tr"
  shows "lookups st' = lookups st @ tr" and "tr \<noteq> []"
    and "map1n_chain unq m p argv tr" and "argv' = foldl (map1n_step unq) argv tr"
    and "sorted (map fst tr)" and "\<forall>c \<in> set tr. arg \<le> fst c \<and> fst c < MAX_EXPANSION"
    and "\<forall>c \<in> set (butlast tr). \<not> stopper unq c"
    and "\<forall>s. arg \<le> s \<and> s \<le> fst (last tr) \<longrightarrow> slot_lookups s tr \<noteq> []"
    and "\<forall>s. arg \<le> s \<and> s \<le> fst (last tr) \<longrightarrow>
           length (foldl (map1n_step unq) argv (lookups_before s tr)) \<le> MAX_EXPANSION"
    and "\<forall>s. length (slot_lookups s tr) \<le> MAX_RECURSION
               \<and> (\<forall>c \<in> set (butlast (slot_lookups s tr)). goes_on1n unq c)"
    and "\<forall>s. arg \<le> s \<and> s < fst (last tr) \<longrightarrow> slot_left unq (slot_lookups s tr)"
    and "stopper unq (last tr)
          \<or> (slot_left unq (slot_lookups (fst (last tr)) tr)
              \<and> (Suc (fst (last tr)) < length argv' \<longrightarrow> MAX_EXPANSION < length argv'))"
    and "cleanup_errs st' =
          (if snd (snd (last tr)) = Lookup_error then cleanup_errs st OR CLEANUP_STAT_WRITE
           else cleanup_errs st)"
    and "cleanup_log st' =
          cleanup_log st
            @ concat (map (\<lambda>s. if nesting_capped unq (slot_lookups s tr)
                                 then [Msg_warn (nesting_text st m addr)] else [])
                        [arg ..< Suc (fst (last tr))])
            @ (if snd (snd (last tr)) = Lookup_error
               then [Msg_warn (lookup_problem_text st m addr)] else [])
            @ (if \<not> stopper unq (last tr) \<and> Suc (fst (last tr)) < length argv'
               then [Msg_warn (expansion_size_text st m addr)] else [])"
    and "cleanup_queue_id st' = cleanup_queue_id st"
  using assms unfolding outer_run_def by blast+

lemma outer_run_single:
  assumes inner: "inner_run unq m p addr arg MAX_RECURSION argv st lv self1 argv1 st1 tr"
    and arg: "arg < MAX_EXPANSION" and small: "length argv \<le> MAX_EXPANSION"
    and cap: "lv = Next_slot \<and> Suc arg < length argv1 \<longrightarrow> MAX_EXPANSION < length argv1"
    and st': "lookups st' = lookups st1" "cleanup_errs st' = cleanup_errs st1"
      "cleanup_queue_id st' = cleanup_queue_id st1"
      "cleanup_log st' = cleanup_log st1
         @ (if lv = Next_slot \<and> Suc arg < length argv1
            then [Msg_warn (expansion_size_text st1 m addr)] else [])"
  shows "outer_run unq m p addr arg argv st argv1 st' tr"
proof -
  from inner have r: "lookups st1 = lookups st @ tr" "tr \<noteq> []" "length tr \<le> MAX_RECURSION"
    "\<forall>c \<in> set tr. fst c = arg" "map1n_chain unq m p argv tr"
    "argv1 = foldl (map1n_step unq) argv tr" "\<forall>c \<in> set (butlast tr). goes_on1n unq c"
    "goes_on1n unq (last tr) \<longrightarrow> length tr = MAX_RECURSION"
    "lv = (if stopper unq (last tr) then Return else Next_slot)"
    "cleanup_errs st1 =
          (if snd (snd (last tr)) = Lookup_error then cleanup_errs st OR CLEANUP_STAT_WRITE
           else cleanup_errs st)"
    "cleanup_log st1 =
          cleanup_log st
            @ (if snd (snd (last tr)) = Lookup_error
               then [Msg_warn (lookup_problem_text st m addr)] else [])
            @ (if goes_on1n unq (last tr) then [Msg_warn (nesting_text st m addr)] else [])"
    "cleanup_queue_id st1 = cleanup_queue_id st"
    unfolding inner_run_def by blast+
  have lst: "fst (last tr) = arg" using r(2,4) by simp
  note sl = slot_lookups_same [OF r(4)]
  have lv: "lv = Next_slot \<longleftrightarrow> \<not> stopper unq (last tr)" using r(9) by simp
  have capd: "nesting_capped unq tr = goes_on1n unq (last tr)"
    using r(8) by (auto simp: nesting_capped_def)
  have etext: "expansion_size_text st1 m addr = expansion_size_text st m addr"
    using r(12) by (simp add: expansion_size_text_def)
  show ?thesis
  proof (rule outer_runI)
    show "lookups st' = lookups st @ tr" using st'(1) r(1) by simp
    show "tr \<noteq> []" by (rule r(2))
    show "map1n_chain unq m p argv tr" by (rule r(5))
    show "argv1 = foldl (map1n_step unq) argv tr" by (rule r(6))
    show "sorted (map fst tr)" using r(4) by (rule sorted_same_slot)
    show "\<forall>c \<in> set tr. arg \<le> fst c \<and> fst c < MAX_EXPANSION" using r(4) arg by simp
    show "\<forall>c \<in> set (butlast tr). \<not> stopper unq c" using r(7) by (simp add: goes_on1n_iff)
    show "slot_lookups s tr \<noteq> []" if "arg \<le> s" "s \<le> fst (last tr)" for s
      using that r(2) lst by (simp add: sl)
    show "length (foldl (map1n_step unq) argv (lookups_before s tr)) \<le> MAX_EXPANSION"
      if "arg \<le> s" "s \<le> fst (last tr)" for s
    proof -
      from that lst r(4) have "lookups_before s tr = []"
        by (auto simp: lookups_before_def filter_empty_conv)
      with small show ?thesis by simp
    qed
    show "length (slot_lookups s tr) \<le> MAX_RECURSION" for s using r(3) by (simp add: sl)
    show "\<forall>c \<in> set (butlast (slot_lookups s tr)). goes_on1n unq c" for s
      using r(7) by (simp add: sl)
    show "slot_left unq (slot_lookups s tr)" if "arg \<le> s" "s < fst (last tr)" for s
      using that lst by simp
    show "stopper unq (last tr)
          \<or> (slot_left unq (slot_lookups (fst (last tr)) tr)
              \<and> (Suc (fst (last tr)) < length argv1 \<longrightarrow> MAX_EXPANSION < length argv1))"
    proof (cases "stopper unq (last tr)")
      case True
      then show ?thesis ..
    next
      case False
      then have "snd (snd (last tr)) = Not_found \<or> goes_on1n unq (last tr)"
        by (simp add: goes_on1n_iff)
      with r(2) capd have "slot_left unq tr" by (simp add: slot_left_def)
      with False cap lv show ?thesis by (simp add: lst sl)
    qed
    show "cleanup_errs st' =
          (if snd (snd (last tr)) = Lookup_error then cleanup_errs st OR CLEANUP_STAT_WRITE
           else cleanup_errs st)" using st'(2) r(10) by simp
    show "cleanup_log st' =
          cleanup_log st
            @ concat (map (\<lambda>s. if nesting_capped unq (slot_lookups s tr)
                                 then [Msg_warn (nesting_text st m addr)] else [])
                        [arg ..< Suc (fst (last tr))])
            @ (if snd (snd (last tr)) = Lookup_error
               then [Msg_warn (lookup_problem_text st m addr)] else [])
            @ (if \<not> stopper unq (last tr) \<and> Suc (fst (last tr)) < length argv1
               then [Msg_warn (expansion_size_text st m addr)] else [])"
    proof -
      have "[arg ..< Suc (fst (last tr))] = [arg]" by (simp add: lst)
      moreover have "goes_on1n unq (last tr) \<Longrightarrow> snd (snd (last tr)) \<noteq> Lookup_error"
        by (simp add: goes_on1n_iff stopper_def)
      ultimately show ?thesis
        using st'(4) r(11) lv capd etext by (simp add: sl lst)
    qed
    show "cleanup_queue_id st' = cleanup_queue_id st" using st'(3) r(12) by simp
  qed
qed

lemma outer_run_append:
  assumes inner: "inner_run unq m p addr arg MAX_RECURSION argv st Next_slot self1 argv1 st1 tr1"
    and outer: "outer_run unq m p addr (Suc arg) argv1 st1 argv' st' tr2"
    and arg: "arg < MAX_EXPANSION" and small: "length argv \<le> MAX_EXPANSION"
  shows "outer_run unq m p addr arg argv st argv' st' (tr1 @ tr2)"
proof -
  from inner have r: "lookups st1 = lookups st @ tr1" "tr1 \<noteq> []" "length tr1 \<le> MAX_RECURSION"
    "\<forall>c \<in> set tr1. fst c = arg" "map1n_chain unq m p argv tr1"
    "argv1 = foldl (map1n_step unq) argv tr1" "\<forall>c \<in> set (butlast tr1). goes_on1n unq c"
    "cleanup_errs st1 =
          (if snd (snd (last tr1)) = Lookup_error then cleanup_errs st OR CLEANUP_STAT_WRITE
           else cleanup_errs st)"
    "cleanup_log st1 =
          cleanup_log st
            @ (if snd (snd (last tr1)) = Lookup_error
               then [Msg_warn (lookup_problem_text st m addr)] else [])
            @ (if goes_on1n unq (last tr1) then [Msg_warn (nesting_text st m addr)] else [])"
    "cleanup_queue_id st1 = cleanup_queue_id st"
    unfolding inner_run_def by blast+
  note left = inner_run_slot_left [OF inner]
  note o = outer_runD [OF outer]
  from o(6) have above: "\<forall>c \<in> set tr2. Suc arg \<le> fst c" by blast
  note sl = slot_lookups_append [OF r(4) above]
  have lst: "last (tr1 @ tr2) = last tr2" using o(2) by simp
  from o(2) have "last tr2 \<in> set tr2" by simp
  with above have hi: "Suc arg \<le> fst (last tr2)" by blast
  then have ne: "fst (last tr2) \<noteq> arg" by simp
  have texts: "nesting_text st1 m addr = nesting_text st m addr"
    "lookup_problem_text st1 m addr = lookup_problem_text st m addr"
    "expansion_size_text st1 m addr = expansion_size_text st m addr"
    using r(10) by (simp_all add: nesting_text_def lookup_problem_text_def expansion_size_text_def)
  show ?thesis
  proof (rule outer_runI)
    show "lookups st' = lookups st @ tr1 @ tr2" using o(1) r(1) by simp
    show "tr1 @ tr2 \<noteq> []" using r(2) by simp
    show "map1n_chain unq m p argv (tr1 @ tr2)"
      using r(5) o(3) unfolding r(6) by (simp add: map1n_chain_append)
    show "argv' = foldl (map1n_step unq) argv (tr1 @ tr2)" using o(4) r(6) by simp
    show "sorted (map fst (tr1 @ tr2))"
      using sorted_same_slot [OF r(4)] o(5) r(4) above by (auto simp: sorted_append)
    show "\<forall>c \<in> set (tr1 @ tr2). arg \<le> fst c \<and> fst c < MAX_EXPANSION"
      using r(4) o(6) arg by auto
    show "\<forall>c \<in> set (butlast (tr1 @ tr2)). \<not> stopper unq c"
    proof
      fix c assume "c \<in> set (butlast (tr1 @ tr2))"
      with o(2) have "c \<in> set tr1 \<or> c \<in> set (butlast tr2)" by (simp add: butlast_append)
      then show "\<not> stopper unq c"
      proof
        assume c: "c \<in> set tr1"
        show ?thesis
        proof (cases "c \<in> set (butlast tr1)")
          case True
          with r(7) show ?thesis by (simp add: goes_on1n_iff)
        next
          case False
          from r(2) have "tr1 = butlast tr1 @ [last tr1]" by simp
          with c have "c \<in> set (butlast tr1 @ [last tr1])" by simp
          with False have "c = last tr1" by simp
          with left(1) show ?thesis by simp
        qed
      next
        assume "c \<in> set (butlast tr2)"
        with o(7) show ?thesis by blast
      qed
    qed
    show "slot_lookups s (tr1 @ tr2) \<noteq> []" if "arg \<le> s" "s \<le> fst (last (tr1 @ tr2))" for s
    proof (cases "s = arg")
      case True
      with r(2) show ?thesis by (simp add: sl)
    next
      case False
      with that lst have "Suc arg \<le> s \<and> s \<le> fst (last tr2)" by simp
      with o(8) False show ?thesis by (simp add: sl)
    qed
    show "length (foldl (map1n_step unq) argv (lookups_before s (tr1 @ tr2))) \<le> MAX_EXPANSION"
      if "arg \<le> s" "s \<le> fst (last (tr1 @ tr2))" for s
    proof (cases "s = arg")
      case True
      with r(4) above have "lookups_before s (tr1 @ tr2) = []"
        by (auto simp: lookups_before_def filter_empty_conv)
      with small show ?thesis by simp
    next
      case False
      with that lst have s: "Suc arg \<le> s \<and> s \<le> fst (last tr2)" by simp
      with r(4) have "lookups_before s (tr1 @ tr2) = tr1 @ lookups_before s tr2"
        by (auto simp: lookups_before_def filter_id_conv)
      with o(9) s r(6) show ?thesis by simp
    qed
    show "length (slot_lookups s (tr1 @ tr2)) \<le> MAX_RECURSION" for s
      using r(3) o(10) by (simp add: sl)
    show "\<forall>c \<in> set (butlast (slot_lookups s (tr1 @ tr2))). goes_on1n unq c" for s
      using r(7) o(10) by (simp add: sl)
    show "slot_left unq (slot_lookups s (tr1 @ tr2))"
      if "arg \<le> s" "s < fst (last (tr1 @ tr2))" for s
    proof (cases "s = arg")
      case True
      with left(2) show ?thesis by (simp add: sl)
    next
      case False
      with that lst have "Suc arg \<le> s \<and> s < fst (last tr2)" by simp
      with o(11) False show ?thesis by (simp add: sl)
    qed
    show "stopper unq (last (tr1 @ tr2))
          \<or> (slot_left unq (slot_lookups (fst (last (tr1 @ tr2))) (tr1 @ tr2))
              \<and> (Suc (fst (last (tr1 @ tr2))) < length argv' \<longrightarrow> MAX_EXPANSION < length argv'))"
      using o(12) ne by (simp add: lst sl)
    show "cleanup_errs st' =
          (if snd (snd (last (tr1 @ tr2))) = Lookup_error
           then cleanup_errs st OR CLEANUP_STAT_WRITE else cleanup_errs st)"
      using o(13) r(8) left(4) by (simp add: lst)
    show "cleanup_log st' =
          cleanup_log st
            @ concat (map (\<lambda>s. if nesting_capped unq (slot_lookups s (tr1 @ tr2))
                                 then [Msg_warn (nesting_text st m addr)] else [])
                        [arg ..< Suc (fst (last (tr1 @ tr2)))])
            @ (if snd (snd (last (tr1 @ tr2))) = Lookup_error
               then [Msg_warn (lookup_problem_text st m addr)] else [])
            @ (if \<not> stopper unq (last (tr1 @ tr2))
                  \<and> Suc (fst (last (tr1 @ tr2))) < length argv'
               then [Msg_warn (expansion_size_text st m addr)] else [])"
    proof -
      let ?f = "\<lambda>s. if nesting_capped unq (slot_lookups s (tr1 @ tr2))
                     then [Msg_warn (nesting_text st m addr)] else []"
      let ?g = "\<lambda>s. if nesting_capped unq (slot_lookups s tr2)
                     then [Msg_warn (nesting_text st m addr)] else []"
      have upt: "[arg ..< Suc (fst (last tr2))] = arg # [Suc arg ..< Suc (fst (last tr2))]"
        using hi by (simp add: upt_conv_Cons)
      have same: "map ?f [Suc arg ..< Suc (fst (last tr2))] = map ?g [Suc arg ..< Suc (fst (last tr2))]"
        by (rule map_cong) (use hi in \<open>auto simp: sl\<close>)
      have first: "?f arg = (if goes_on1n unq (last tr1)
                             then [Msg_warn (nesting_text st m addr)] else [])"
        using left(3) by (simp add: sl)
      have "concat (map ?f [arg ..< Suc (fst (last tr2))]) =
          (if goes_on1n unq (last tr1) then [Msg_warn (nesting_text st m addr)] else [])
            @ concat (map ?g [Suc arg ..< Suc (fst (last tr2))])"
        unfolding upt by (simp only: list.map concat.simps same first)
      then show ?thesis
        using o(14) [unfolded texts r(9)] left(4) by (simp add: lst del: upt_Suc)
    qed
    show "cleanup_queue_id st' = cleanup_queue_id st" using o(15) r(10) by simp
  qed
qed

lemma map1n_outer_run:
  "map1n_outer unq m p addr arg self argv st = (argv', st') \<Longrightarrow>
   \<not> self \<Longrightarrow> arg < length argv \<Longrightarrow> length argv \<le> MAX_EXPANSION \<Longrightarrow>
   \<exists>tr. outer_run unq m p addr arg argv st argv' st' tr"
proof (induction unq m p addr arg self argv st arbitrary: argv' st' rule: map1n_outer.induct)
  case (1 unq m p addr arg self argv st)
  note unf = map1n_outer.simps [of unq m p addr arg self argv st]
  note run0 = "1.prems"(1) [unfolded unf]
  note lt = \<open>arg < length argv\<close>
  note small = \<open>length argv \<le> MAX_EXPANSION\<close>
  then have nbig: "\<not> length argv > MAX_EXPANSION" by simp
  from lt small have arg: "arg < MAX_EXPANSION" by simp
  obtain lv self1 argv1 st1 where
    inner: "map1n_inner unq m p addr arg 0 self argv st = (lv, self1, argv1, st1)"
    by (metis prod_cases4)
  have "0 < MAX_RECURSION" by (simp add: MAX_RECURSION_def)
  from map1n_inner_run [OF inner this \<open>\<not> self\<close> lt]
  obtain tr1 where tr1: "inner_run unq m p addr arg MAX_RECURSION argv st lv self1 argv1 st1 tr1"
    by auto
  show ?case
  proof (cases lv)
    case Return
    with lt nbig run0 inner have res: "argv' = argv1" "st' = st1" by auto
    have "outer_run unq m p addr arg argv st argv1 st' tr1"
      using tr1 arg small by (rule outer_run_single) (simp_all add: res Return)
    with res show ?thesis by auto
  next
    case Next_slot
    with lt nbig run0 inner
    have run: "map1n_outer unq m p addr (Suc arg) self1 argv1 st1 = (argv', st')" by auto
    note unf2 = map1n_outer.simps [of unq m p addr "Suc arg" self1 argv1 st1]
    from tr1 Next_slot have ns: "\<not> self1" by (simp add: inner_run_def)
    show ?thesis
    proof (cases "Suc arg < length argv1")
      case False
      with run have res: "argv' = argv1" "st' = st1" by (auto simp: unf2)
      have "outer_run unq m p addr arg argv st argv1 st' tr1"
        using tr1 arg small by (rule outer_run_single) (simp_all add: res False)
      with res show ?thesis by auto
    next
      case True
      show ?thesis
      proof (cases "length argv1 > MAX_EXPANSION")
        case big: True
        with True run have res: "argv' = argv1"
          "st' = cleanup_warn (expansion_size_text st1 m addr) st1" by (auto simp: unf2)
        have "outer_run unq m p addr arg argv st argv1 st' tr1"
          using tr1 arg small
          by (rule outer_run_single) (simp_all add: res True big Next_slot cleanup_warn_def)
        with res show ?thesis by auto
      next
        case False
        then have small1: "length argv1 \<le> MAX_EXPANSION" by simp
        from "1.IH" [OF lt nbig inner [symmetric] Next_slot refl refl run ns True small1]
        obtain tr2 where "outer_run unq m p addr (Suc arg) argv1 st1 argv' st' tr2" ..
        from outer_run_append [OF tr1 [unfolded Next_slot] this arg small]
        show ?thesis ..
      qed
    qed
  qed
qed

text \<open>
  C3, amended. \<open>cleanup_map1n_internal\<close> always returns a non-empty list, after at
  least one lookup. Every lookup asks the table for the current content of a slot of the
  list, and the list returned is the given address with the lookups applied in order (the
  first address of an answer replaces the slot, the others are appended). The slots are
  taken in turn, none is skipped; a slot is taken up only when the list then has at most
  1000 entries, so that only slots with an index below 1000 are looked up.
  At most 1000 lookups are made for a slot; the lookups for a slot go on while the answer
  is a result without the key, and the slot is left for the next one only when a lookup
  found nothing or when 1000 lookups were made, in which case the nesting warning is
  logged. No lookup follows one whose result contains its key (up to case, unquoted) or
  one that failed: the list is returned at once, and the write-error bit is set exactly
  when the last lookup failed. Otherwise the routine returns when the last slot of the
  list has been left, or when the next slot would be taken up and the list then has more
  than 1000 entries; in that case, and only then, the expansion-size warning is logged,
  and the list is returned as it stands, so that it can be longer than 1000 entries.
\<close>

theorem cleanup_map1n_internal_bounds:
  assumes "cleanup_map1n_internal unq m p addr st = (argv', st')"
    and "tr = new_lookups st st'"
  shows "lookups st' = lookups st @ tr
         \<and> tr \<noteq> [] \<and> argv' \<noteq> []
         \<and> map1n_chain unq m p [addr] tr
         \<and> argv' = foldl (map1n_step unq) [addr] tr
         \<and> sorted (map fst tr)
         \<and> (\<forall>c \<in> set tr. fst c < MAX_EXPANSION)
         \<and> (\<forall>c \<in> set (butlast tr). \<not> stopper unq c)
         \<and> (\<forall>s \<le> fst (last tr). slot_lookups s tr \<noteq> [])
         \<and> (\<forall>s \<le> fst (last tr).
               length (foldl (map1n_step unq) [addr] (lookups_before s tr)) \<le> MAX_EXPANSION)
         \<and> (\<forall>s. length (slot_lookups s tr) \<le> MAX_RECURSION
                  \<and> (\<forall>c \<in> set (butlast (slot_lookups s tr)). goes_on1n unq c))
         \<and> (\<forall>s < fst (last tr). slot_left unq (slot_lookups s tr))
         \<and> (stopper unq (last tr)
             \<or> (slot_left unq (slot_lookups (fst (last tr)) tr)
                 \<and> (Suc (fst (last tr)) < length argv' \<longrightarrow> MAX_EXPANSION < length argv')))
         \<and> cleanup_errs st' =
             (if snd (snd (last tr)) = Lookup_error then cleanup_errs st OR CLEANUP_STAT_WRITE
              else cleanup_errs st)
         \<and> cleanup_log st' =
             cleanup_log st
               @ concat (map (\<lambda>s. if nesting_capped unq (slot_lookups s tr)
                                    then [Msg_warn (nesting_text st m addr)] else [])
                           [0 ..< Suc (fst (last tr))])
               @ (if snd (snd (last tr)) = Lookup_error
                  then [Msg_warn (lookup_problem_text st m addr)] else [])
               @ (if \<not> stopper unq (last tr) \<and> Suc (fst (last tr)) < length argv'
                  then [Msg_warn (expansion_size_text st m addr)] else [])
         \<and> cleanup_queue_id st' = cleanup_queue_id st"
proof -
  from assms(1) have "map1n_outer unq m p addr 0 False [addr] st = (argv', st')"
    by (simp add: cleanup_map1n_internal_def)
  from map1n_outer_run [OF this] obtain tr0 where
    run: "outer_run unq m p addr 0 [addr] st argv' st' tr0"
    by (auto simp: MAX_EXPANSION_def)
  then have "lookups st' = lookups st @ tr0" by (simp add: outer_run_def)
  with assms(2) have tr: "tr0 = tr" by (simp add: new_lookups_def)
  note o = outer_runD [OF run [unfolded tr]]
  from o(4) length_foldl_step [of "[addr]" unq tr] have ne: "argv' \<noteq> []" by auto
  from o(6) have slots: "\<forall>c \<in> set tr. fst c < MAX_EXPANSION" by blast
  from o(8) have visited: "\<forall>s \<le> fst (last tr). slot_lookups s tr \<noteq> []" by simp
  from o(9) have taken: "\<forall>s \<le> fst (last tr).
      length (foldl (map1n_step unq) [addr] (lookups_before s tr)) \<le> MAX_EXPANSION" by simp
  from o(11) have left: "\<forall>s < fst (last tr). slot_left unq (slot_lookups s tr)" by simp
  from o(1,2) ne o(3,4,5) slots o(7) visited taken o(10) left o(12,13,14,15)
  show ?thesis by (intro conjI)
qed

text \<open>The runs on the tables with a wide entry and with a cycle.\<close>

lemma other_funpow:
  "x = ''a'' \<or> x = ''b'' \<Longrightarrow> (other ^^ k) x = (if even k then x else other x)"
  by (induction k) (auto simp: other_def)

lemma loop_maps_inner:
  "k \<le> MAX_RECURSION \<Longrightarrow> x = ''a'' \<or> x = ''b'' \<Longrightarrow>
   \<exists>tr. map1n_inner id loop_maps 0 ''s'' 0 (MAX_RECURSION - k) False [x, ''c''] st =
          (Next_slot, False, [(other ^^ k) x, ''c''],
           st\<lparr>lookups := lookups st @ tr,
              cleanup_log := cleanup_log st @ [Msg_warn (nesting_text st loop_maps ''s'')]\<rparr>)
        \<and> length tr = k \<and> (\<forall>c \<in> set tr. fst c = 0)
        \<and> foldl (map1n_step id) [x, ''c''] tr = [(other ^^ k) x, ''c'']"
proof (induction k arbitrary: x st)
  case 0
  have "map1n_inner id loop_maps 0 ''s'' 0 MAX_RECURSION False [x, ''c''] st =
      (Next_slot, False, [x, ''c''],
       st\<lparr>lookups := lookups st @ [],
          cleanup_log := cleanup_log st @ [Msg_warn (nesting_text st loop_maps ''s'')]\<rparr>)"
    by (simp add: map1n_inner.simps [of _ _ _ _ _ MAX_RECURSION] cleanup_warn_def)
  then have "map1n_inner id loop_maps 0 ''s'' 0 (MAX_RECURSION - 0) False [x, ''c''] st =
      (Next_slot, False, [(other ^^ 0) x, ''c''],
       st\<lparr>lookups := lookups st @ [],
          cleanup_log := cleanup_log st @ [Msg_warn (nesting_text st loop_maps ''s'')]\<rparr>)"
    by (simp only: diff_zero funpow_0)
  moreover have "length ([] :: (nat \<times> string \<times> lookup) list) = 0"
    "\<forall>c \<in> set ([] :: (nat \<times> string \<times> lookup) list). fst c = 0"
    "foldl (map1n_step id) [x, ''c''] [] = [(other ^^ 0) x, ''c'']" by simp_all
  ultimately show ?case by blast
next
  case (Suc k)
  let ?c = "(0 :: nat, x, Found (other x) [])"
  let ?st1 = "note_lookup 0 x (Found (other x) []) st"
  from Suc.prems(2) have ox: "other x = ''a'' \<or> other x = ''b''" "\<not> strcaseeq x (other x)"
    by (auto simp: other_def strcaseeq_def tolower_c_def)
  from Suc.prems(1) have k: "k \<le> MAX_RECURSION" and lt: "\<not> MAX_RECURSION \<le> MAX_RECURSION - Suc k"
    and suc: "Suc (MAX_RECURSION - Suc k) = MAX_RECURSION - k" by simp_all
  have look: "mail_addr_map loop_maps x 0 = Found (other x) []"
    using Suc.prems(2) by (auto simp: mail_addr_map_def loop_maps_def)
  have unf: "map1n_inner id loop_maps 0 ''s'' 0 (MAX_RECURSION - Suc k) False [x, ''c''] st =
      map1n_inner id loop_maps 0 ''s'' 0 (MAX_RECURSION - k) False [other x, ''c''] ?st1"
    using lt ox(2)
    by (simp add: map1n_inner.simps [of _ _ _ _ _ "MAX_RECURSION - Suc k"] look Let_def suc
        map1n_store_first)
  from Suc.IH [OF k ox(1), of ?st1] obtain tr where
    ih: "map1n_inner id loop_maps 0 ''s'' 0 (MAX_RECURSION - k) False [other x, ''c''] ?st1 =
          (Next_slot, False, [(other ^^ k) (other x), ''c''],
           ?st1\<lparr>lookups := lookups ?st1 @ tr,
              cleanup_log := cleanup_log ?st1 @ [Msg_warn (nesting_text ?st1 loop_maps ''s'')]\<rparr>)"
    "length tr = k" "\<forall>c \<in> set tr. fst c = 0"
    "foldl (map1n_step id) [other x, ''c''] tr = [(other ^^ k) (other x), ''c'']"
    by blast
  have pow: "(other ^^ k) (other x) = (other ^^ Suc k) x" by (simp add: funpow_swap1)
  have "map1n_inner id loop_maps 0 ''s'' 0 (MAX_RECURSION - Suc k) False [x, ''c''] st =
          (Next_slot, False, [(other ^^ Suc k) x, ''c''],
           st\<lparr>lookups := lookups st @ ?c # tr,
              cleanup_log := cleanup_log st @ [Msg_warn (nesting_text st loop_maps ''s'')]\<rparr>)"
    unfolding unf ih(1) pow by (simp add: note_lookup_def nesting_text_def)
  moreover have "length (?c # tr) = Suc k" using ih(2) by simp
  moreover have "\<forall>c \<in> set (?c # tr). fst c = 0" using ih(3) by simp
  moreover have "foldl (map1n_step id) [x, ''c''] (?c # tr) = [(other ^^ Suc k) x, ''c'']"
    using ih(4) unfolding pow by (simp add: map1n_step_def)
  ultimately show ?case by blast
qed

lemma loop_maps_run:
  "\<exists>tr. cleanup_map1n_internal id loop_maps 0 ''s'' cleanup0 =
          ([''b'', ''d''],
           cleanup0\<lparr>lookups := tr @ [(1, ''c'', Found ''d'' []), (1, ''d'', Not_found)],
              cleanup_log := [Msg_warn ''A1B2C3: unreasonable virtual map nesting for s'']\<rparr>)
        \<and> length tr = 1000 \<and> (\<forall>c \<in> set tr. fst c = 0)
        \<and> foldl (map1n_step id) [''s''] tr = [''b'', ''c'']"
proof -
  let ?c0 = "(0 :: nat, ''s'', Found ''a'' [''c''])"
  let ?st1 = "note_lookup 0 ''s'' (Found ''a'' [''c'']) cleanup0"
  have k: "MAX_RECURSION - 999 = Suc 0" "(999 :: nat) \<le> MAX_RECURSION"
    by (simp_all add: MAX_RECURSION_def)
  from loop_maps_inner [OF k(2), of "''a''" ?st1, unfolded k(1)] obtain tr where
    tr: "map1n_inner id loop_maps 0 ''s'' 0 (Suc 0) False [''a'', ''c''] ?st1 =
          (Next_slot, False, [(other ^^ 999) ''a'', ''c''],
           ?st1\<lparr>lookups := lookups ?st1 @ tr,
              cleanup_log := cleanup_log ?st1 @ [Msg_warn (nesting_text ?st1 loop_maps ''s'')]\<rparr>)"
    "length tr = 999" "\<forall>c \<in> set tr. fst c = 0"
    "foldl (map1n_step id) [''a'', ''c''] tr = [(other ^^ 999) ''a'', ''c'']"
    by auto
  have pow: "(other ^^ 999) ''a'' = ''b''" by (simp add: other_funpow other_def)
  let ?st2 = "cleanup0\<lparr>lookups := ?c0 # tr,
              cleanup_log := [Msg_warn ''A1B2C3: unreasonable virtual map nesting for s'']\<rparr>"
  have inner0: "map1n_inner id loop_maps 0 ''s'' 0 0 False [''s''] cleanup0 =
      (Next_slot, False, [''b'', ''c''], ?st2)"
  proof -
    have "map1n_inner id loop_maps 0 ''s'' 0 0 False [''s''] cleanup0 =
        map1n_inner id loop_maps 0 ''s'' 0 (Suc 0) False [''a'', ''c''] ?st1"
      by (simp add: map1n_inner.simps [of _ _ _ _ _ 0] MAX_RECURSION_def mail_addr_map_def
          loop_maps_def Let_def map1n_store_first strcaseeq_def tolower_c_def)
    then show ?thesis unfolding tr(1) pow
      by (simp add: note_lookup_def nesting_text_def cleanup0_def loop_maps_def)
  qed
  have inner1: "map1n_inner id loop_maps 0 ''s'' (Suc 0) 0 False [''b'', ''c''] ?st2 =
      (Next_slot, False, [''b'', ''d''],
       ?st2\<lparr>lookups := lookups ?st2 @ [(1, ''c'', Found ''d'' []), (1, ''d'', Not_found)]\<rparr>)"
    by (simp add: map1n_inner.simps [of _ _ _ _ _ 0] map1n_inner.simps [of _ _ _ _ _ "Suc 0"]
        MAX_RECURSION_def mail_addr_map_def loop_maps_def Let_def map1n_store_first
        strcaseeq_def tolower_c_def note_lookup_def)
  have "cleanup_map1n_internal id loop_maps 0 ''s'' cleanup0 =
          ([''b'', ''d''],
           cleanup0\<lparr>lookups := (?c0 # tr) @ [(1, ''c'', Found ''d'' []), (1, ''d'', Not_found)],
              cleanup_log := [Msg_warn ''A1B2C3: unreasonable virtual map nesting for s'']\<rparr>)"
    by (simp add: cleanup_map1n_internal_def map1n_outer.simps [of _ _ _ _ 0]
        map1n_outer.simps [of _ _ _ _ "Suc 0"] map1n_outer.simps [of _ _ _ _ "Suc (Suc 0)"]
        inner0 inner1 MAX_EXPANSION_def)
  moreover have "length (?c0 # tr) = 1000" using tr(2) by simp
  moreover have "\<forall>c \<in> set (?c0 # tr). fst c = 0" using tr(3) by simp
  moreover have "foldl (map1n_step id) [''s''] (?c0 # tr) = [''b'', ''c'']"
    using tr(4) unfolding pow by (simp add: map1n_step_def)
  ultimately show ?thesis by blast
qed

lemma wide_maps_run:
  "cleanup_map1n_internal id wide_maps 0 ''a'' cleanup0 =
     (''b'' # replicate 1000 ''b'',
      cleanup0\<lparr>lookups := [(0, ''a'', Found ''b'' (replicate 1000 ''b'')), (0, ''b'', Not_found)],
        cleanup_log := [Msg_warn ''A1B2C3: unreasonable virtual map expansion size for a'']\<rparr>)"
proof -
  have inner: "map1n_inner id wide_maps 0 ''a'' 0 0 False [''a''] cleanup0 =
      (Next_slot, False, ''b'' # replicate 1000 ''b'',
       note_lookup 0 ''b'' Not_found
         (note_lookup 0 ''a'' (Found ''b'' (replicate 1000 ''b'')) cleanup0))"
    by (simp add: map1n_inner.simps [of _ _ _ _ _ 0] map1n_inner.simps [of _ _ _ _ _ "Suc 0"]
        MAX_RECURSION_def mail_addr_map_def wide_maps_def Let_def map1n_store_later
        list_ex_iff strcaseeq_def tolower_c_def)
  let ?st = "note_lookup 0 ''b'' Not_found
         (note_lookup 0 ''a'' (Found ''b'' (replicate 1000 ''b'')) cleanup0)"
  have "cleanup_map1n_internal id wide_maps 0 ''a'' cleanup0 =
     (''b'' # replicate 1000 ''b'', cleanup_warn (expansion_size_text ?st wide_maps ''a'') ?st)"
    by (simp add: cleanup_map1n_internal_def map1n_outer.simps [of _ _ _ _ 0]
        map1n_outer.simps [of _ _ _ _ "Suc 0"] inner MAX_EXPANSION_def)
  then show ?thesis
    by (simp add: note_lookup_def cleanup_warn_def expansion_size_text_def cleanup0_def
        wide_maps_def)
qed

text \<open>
  C3, as the claim states it, fails, in two ways. The length of the list is tested only
  when the next slot is taken up, so one lookup result of 1001 addresses gives a list of
  1001 entries. And the nesting cap does not make the routine return: with the table
  \<open>loop_maps\<close>, 1000 lookups are made for slot 0, the nesting warning is logged when the
  list is \<open>[b, c]\<close>, and the routine goes on with slot 1, makes two more lookups and
  returns \<open>[b, d]\<close>.
\<close>

theorem map1n_caps_counterexample:
  "\<not> length (fst (cleanup_map1n_internal id wide_maps 0 ''a'' cleanup0)) \<le> MAX_EXPANSION
   \<and> fst (cleanup_map1n_internal id loop_maps 0 ''s'' cleanup0) = [''b'', ''d'']
   \<and> cleanup_log (snd (cleanup_map1n_internal id loop_maps 0 ''s'' cleanup0)) =
       [Msg_warn ''A1B2C3: unreasonable virtual map nesting for s'']
   \<and> map fst (take 1000 (lookups (snd (cleanup_map1n_internal id loop_maps 0 ''s'' cleanup0))))
       = replicate 1000 0
   \<and> foldl (map1n_step id) [''s'']
         (take 1000 (lookups (snd (cleanup_map1n_internal id loop_maps 0 ''s'' cleanup0))))
       = [''b'', ''c'']
   \<and> drop 1000 (lookups (snd (cleanup_map1n_internal id loop_maps 0 ''s'' cleanup0))) =
       [(1, ''c'', Found ''d'' []), (1, ''d'', Not_found)]"
proof -
  have wide: "\<not> length (fst (cleanup_map1n_internal id wide_maps 0 ''a'' cleanup0))
      \<le> MAX_EXPANSION"
    by (simp add: wide_maps_run MAX_EXPANSION_def)
  from loop_maps_run obtain tr where
    run: "cleanup_map1n_internal id loop_maps 0 ''s'' cleanup0 =
          ([''b'', ''d''],
           cleanup0\<lparr>lookups := tr @ [(1, ''c'', Found ''d'' []), (1, ''d'', Not_found)],
              cleanup_log := [Msg_warn ''A1B2C3: unreasonable virtual map nesting for s'']\<rparr>)"
    and tr: "length tr = 1000" "\<forall>c \<in> set tr. fst c = 0"
      "foldl (map1n_step id) [''s''] tr = [''b'', ''c'']"
    by blast
  from tr(2) have "replicate (length (map fst tr)) 0 = map fst tr"
    by (intro replicate_length_same) simp
  with tr(1) have slots: "map fst tr = replicate 1000 0" by simp
  from wide slots tr(1,3) show ?thesis by (simp add: run)
qed

text \<open>
  Three runs: a list that names itself (returned at once), the wide entry (the
  expansion-size cap), and the cycle (the nesting cap on slot 0, then slot 1).
\<close>

theorem cleanup_map1n_internal_bounds_witness:
  "cleanup_map1n_internal id list_maps 0 ''list@x'' cleanup0 =
     ([''list@x'', ''alice@x'', ''bob@x''],
      cleanup0\<lparr>lookups := [(0, ''list@x'', Found ''list@x'' [''alice@x'', ''bob@x''])]\<rparr>)
   \<and> map1n_chain id list_maps 0 [''list@x'']
       [(0, ''list@x'', Found ''list@x'' [''alice@x'', ''bob@x''])]
   \<and> stopper id (0, ''list@x'', Found ''list@x'' [''alice@x'', ''bob@x''])
   \<and> cleanup_map1n_internal id wide_maps 0 ''a'' cleanup0 =
     (''b'' # replicate 1000 ''b'',
      cleanup0\<lparr>lookups := [(0, ''a'', Found ''b'' (replicate 1000 ''b'')), (0, ''b'', Not_found)],
        cleanup_log := [Msg_warn ''A1B2C3: unreasonable virtual map expansion size for a'']\<rparr>)
   \<and> map1n_chain id wide_maps 0 [''a'']
       [(0, ''a'', Found ''b'' (replicate 1000 ''b'')), (0, ''b'', Not_found)]
   \<and> MAX_EXPANSION < length (''b'' # replicate 1000 ''b'')
   \<and> fst (cleanup_map1n_internal id loop_maps 0 ''s'' cleanup0) = [''b'', ''d'']
   \<and> map1n_chain id loop_maps 0 [''s'']
       (lookups (snd (cleanup_map1n_internal id loop_maps 0 ''s'' cleanup0)))
   \<and> length (slot_lookups 0 (lookups (snd (cleanup_map1n_internal id loop_maps 0 ''s'' cleanup0))))
       = MAX_RECURSION
   \<and> slot_left id
       (slot_lookups 0 (lookups (snd (cleanup_map1n_internal id loop_maps 0 ''s'' cleanup0))))"
proof -
  let ?c1 = "(0 :: nat, ''list@x'', Found ''list@x'' [''alice@x'', ''bob@x''])"
  let ?t2 = "[(0 :: nat, ''a'', Found ''b'' (replicate 1000 ''b'')), (0, ''b'', Not_found)]"
  let ?s2 = "cleanup0\<lparr>lookups := ?t2,
        cleanup_log := [Msg_warn ''A1B2C3: unreasonable virtual map expansion size for a'']\<rparr>"
  let ?r3 = "cleanup_map1n_internal id loop_maps 0 ''s'' cleanup0"
  have run1: "cleanup_map1n_internal id list_maps 0 ''list@x'' cleanup0 =
     ([''list@x'', ''alice@x'', ''bob@x''], cleanup0\<lparr>lookups := [?c1]\<rparr>)"
    by (simp add: cleanup_map1n_internal_def map1n_outer.simps [of _ _ _ _ 0]
        map1n_inner.simps [of _ _ _ _ _ 0] MAX_RECURSION_def MAX_EXPANSION_def
        mail_addr_map_def list_maps_def strcaseeq_def tolower_c_def note_lookup_def
        Let_def cleanup0_def)
  have tr1: "[?c1] = new_lookups cleanup0 (cleanup0\<lparr>lookups := [?c1]\<rparr>)"
    by (simp add: new_lookups_def cleanup0_def)
  have tr2: "?t2 = new_lookups cleanup0 ?s2" by (simp add: new_lookups_def cleanup0_def)
  have tr3: "lookups (snd ?r3) = new_lookups cleanup0 (snd ?r3)"
    by (simp add: new_lookups_def cleanup0_def)
  have run3: "?r3 = (fst ?r3, snd ?r3)" by simp
  note w1 = cleanup_map1n_internal_bounds [OF run1 tr1]
  note w2 = cleanup_map1n_internal_bounds [OF wide_maps_run tr2]
  note w3 = cleanup_map1n_internal_bounds [OF run3 tr3]
  from w1 have chain1: "map1n_chain id list_maps 0 [''list@x''] [?c1]" by (elim conjE)
  have stop1: "stopper id ?c1"
    by (simp add: stopper_def expands_to_self_def strcaseeq_def tolower_c_def)
  from w2 have chain2: "map1n_chain id wide_maps 0 [''a''] ?t2" by (elim conjE)
  from w2 have end2: "stopper id (last ?t2)
             \<or> (slot_left id (slot_lookups (fst (last ?t2)) ?t2)
                 \<and> (Suc (fst (last ?t2)) < length (''b'' # replicate 1000 ''b'')
                      \<longrightarrow> MAX_EXPANSION < length (''b'' # replicate 1000 ''b'')))"
    by (elim conjE)
  then have cap2: "MAX_EXPANSION < length (''b'' # replicate 1000 ''b'')"
    by (simp add: stopper_def expands_to_self_def)
  from loop_maps_run obtain tr where
    run: "?r3 =
          ([''b'', ''d''],
           cleanup0\<lparr>lookups := tr @ [(1, ''c'', Found ''d'' []), (1, ''d'', Not_found)],
              cleanup_log := [Msg_warn ''A1B2C3: unreasonable virtual map nesting for s'']\<rparr>)"
    and tr: "length tr = 1000" "\<forall>c \<in> set tr. fst c = 0"
    by blast
  have lk: "lookups (snd ?r3) = tr @ [(1, ''c'', Found ''d'' []), (1, ''d'', Not_found)]"
    by (simp add: run)
  have res3: "fst ?r3 = [''b'', ''d'']" by (simp add: run)
  from tr(2) have seg: "slot_lookups 0 (lookups (snd ?r3)) = tr"
    unfolding lk by (simp add: slot_lookups_def filter_id_conv)
  have lst: "fst (last (lookups (snd ?r3))) = 1" unfolding lk by simp
  from w3 have chain3: "map1n_chain id loop_maps 0 [''s''] (lookups (snd ?r3))" by (elim conjE)
  from w3 have "\<forall>s < fst (last (lookups (snd ?r3))).
      slot_left id (slot_lookups s (lookups (snd ?r3)))" by (elim conjE)
  with lst have left3: "slot_left id (slot_lookups 0 (lookups (snd ?r3)))" by simp
  have len3: "length (slot_lookups 0 (lookups (snd ?r3))) = MAX_RECURSION"
    unfolding seg using tr(1) by (simp add: MAX_RECURSION_def)
  from run1 chain1 stop1 wide_maps_run chain2 cap2 res3 chain3 len3 left3
  show ?thesis by (intro conjI)
qed

section \<open>Properties of the bounce and defer logfiles\<close>

lemma hd_takeWhile_nonempty: "takeWhile P xs \<noteq> [] \<Longrightarrow> hd (takeWhile P xs) = hd xs \<and> xs \<noteq> []"
  by (cases xs) (auto split: if_splits)

lemma get_nonl_data: "vs_data (snd (snd (vstring_get_nonl fp))) = vs_data fp"
  by (simp add: vstring_get_nonl_def Let_def)

lemma get_nonl_first_byte:
  assumes "cstr (fst (snd (vstring_get_nonl fp))) \<noteq> []"
    and "hd (printable (cstr (fst (snd (vstring_get_nonl fp)))) (CHR ''?'')) = c"
    and "c \<noteq> CHR ''?''"
  shows "vs_pos fp < length (vs_data fp) \<and> vs_data fp ! vs_pos fp = c"
proof -
  define rest where "rest = drop (vs_pos fp) (vs_data fp)"
  define line where "line = takeWhile (\<lambda>c. c \<noteq> CHR 0x0A) rest"
  have buf: "fst (snd (vstring_get_nonl fp)) = line"
    by (auto simp: vstring_get_nonl_def Let_def rest_def line_def)
  from assms(1) have c1: "cstr line \<noteq> []" by (simp add: buf)
  then have l1: "hd (cstr line) = hd line" "line \<noteq> []"
    using hd_takeWhile_nonempty [of "\<lambda>c. c \<noteq> CHR 0x00" line] by (simp_all add: cstr_def)
  then have r1: "hd line = hd rest" "rest \<noteq> []"
    using hd_takeWhile_nonempty [of "\<lambda>c. c \<noteq> CHR 0x0A" rest] by (simp_all add: line_def)
  from c1 have "hd (printable (cstr line) (CHR ''?'')) =
      (if ISPRINT_ASCII (hd (cstr line)) then hd (cstr line) else CHR ''?'')"
    by (cases "cstr line") (simp_all add: printable_def)
  with assms(2,3) have "hd (cstr line) = c" by (auto simp: buf split: if_splits)
  with l1 r1 have "hd rest = c" by simp
  moreover from r1(2) have pos: "vs_pos fp < length (vs_data fp)" by (simp add: rest_def)
  ultimately show ?thesis by (simp add: rest_def hd_drop_conv_nth)
qed

lemma bounce_log_read_live:
  "bounce_log_read bp log = (True, bp', log') \<Longrightarrow>
   vs_data (bl_fp bp') = vs_data (bl_fp bp) \<and> 0 \<le> bl_offset bp'
   \<and> nat (bl_offset bp') < length (vs_data (bl_fp bp'))
   \<and> vs_data (bl_fp bp') ! nat (bl_offset bp') = CHR ''<''"
proof (induction bp log arbitrary: bp' log' rule: bounce_log_read.induct)
  case (1 bp log)
  define x where "x = bp\<lparr>bl_offset := vstream_ftell (bl_fp bp)\<rparr>"
  define xa where "xa = vstring_get_nonl (bl_fp x)"
  define xb where "xb = x\<lparr>bl_buf := fst (snd xa), bl_fp := snd (snd xa)\<rparr>"
  define xc where "xc = printable (cstr (bl_buf xb)) CHR ''?''"
  define xd where "xd = xb\<lparr>bl_buf := xc @ drop (length xc) (bl_buf xb)\<rparr>"
  have unf: "bounce_log_read bp log =
     (if fst xa = None then (False, xb, log)
      else if cstr (bl_buf xb) = [] then bounce_log_read xb log
      else if hd xc = BOUNCE_LOG_STAT_DELETED then bounce_log_read xd log
      else if hd xc \<noteq> CHR ''<''
      then bounce_log_read xd (log @ [Msg_warn (malformed_text (bl_fp xd) xc)])
      else case strstr (tl xc) ''>: '' of
             None \<Rightarrow> bounce_log_read xd (log @ [Msg_warn (malformed_text (bl_fp xd) [])])
           | Some k \<Rightarrow>
               (True,
                xd\<lparr>bl_buf := (bl_buf xd)[Suc k := CHR 0x00],
                   bl_recipient :=
                     Some (if take k (tl xc) \<noteq> [] then take k (tl xc) else ''(MAILER-DAEMON)''),
                   bl_text := Some (dropWhile ISSPACE (drop (k + 2) (tl xc)))\<rparr>,
                log))"
    unfolding x_def xa_def xb_def xc_def xd_def
    by (subst bounce_log_read.simps) (simp only: Let_def)
  note run0 = "1.prems" [unfolded unf]
  have fp_x: "bl_fp x = bl_fp bp" by (simp add: x_def)
  have data_b: "vs_data (bl_fp xb) = vs_data (bl_fp bp)"
    by (simp add: xb_def xa_def fp_x get_nonl_data)
  have data_d: "vs_data (bl_fp xd) = vs_data (bl_fp bp)"
    by (simp add: xd_def data_b)
  show ?case
  proof (cases "fst xa")
    case None
    with run0 show ?thesis by simp
  next
    case (Some ch)
    then have some: "fst xa \<noteq> None" by simp
    show ?thesis
    proof (cases "cstr (bl_buf xb) = []")
      case True
      with Some run0 have "bounce_log_read xb log = (True, bp', log')" by simp
      from "1.IH"(1) [OF x_def xa_def xb_def some True this] data_b show ?thesis by auto
    next
      case line: False
      show ?thesis
      proof (cases "hd xc = BOUNCE_LOG_STAT_DELETED")
        case True
        with Some line run0 have "bounce_log_read xd log = (True, bp', log')" by simp
        from "1.IH"(2) [OF x_def xa_def xb_def some line xc_def xd_def True this] data_d
        show ?thesis by auto
      next
        case live: False
        show ?thesis
        proof (cases "hd xc \<noteq> CHR ''<''")
          case True
          with Some line live run0
          have "bounce_log_read xd (log @ [Msg_warn (malformed_text (bl_fp xd) xc)])
                  = (True, bp', log')" by simp
          from "1.IH"(3) [OF x_def xa_def xb_def some line xc_def xd_def live True this] data_d
          show ?thesis by auto
        next
          case lt: False
          show ?thesis
          proof (cases "strstr (tl xc) ''>: ''")
            case None
            with Some line live lt run0
            have "bounce_log_read xd (log @ [Msg_warn (malformed_text (bl_fp xd) [])])
                  = (True, bp', log')" by simp
            from "1.IH"(4) [OF x_def xa_def xb_def some line xc_def xd_def live lt refl None this]
              data_d
            show ?thesis by auto
          next
            case (Some k)
            with \<open>fst xa = Some ch\<close> line live lt run0
            have res: "vs_data (bl_fp bp') = vs_data (bl_fp xd)"
              "bl_offset bp' = bl_offset xd"
              by auto
            have off: "bl_offset xd = int (vs_pos (bl_fp bp))"
              by (simp add: xd_def xb_def x_def vstream_ftell_def)
            have "vs_pos (bl_fp bp) < length (vs_data (bl_fp bp))
                \<and> vs_data (bl_fp bp) ! vs_pos (bl_fp bp) = CHR ''<''"
            proof (rule get_nonl_first_byte)
              show "cstr (fst (snd (vstring_get_nonl (bl_fp bp)))) \<noteq> []"
                using line by (simp add: xb_def xa_def fp_x)
              show "hd (printable (cstr (fst (snd (vstring_get_nonl (bl_fp bp))))) CHR ''?'')
                      = CHR ''<''"
                using lt by (simp add: xc_def xb_def xa_def fp_x)
              show "CHR ''<'' \<noteq> CHR ''?''" by simp
            qed
            with res off data_d show ?thesis by auto
          qed
        qed
      qed
    qed
  qed
qed

lemma putc_twice:
  "VSTREAM_PUTC c ((VSTREAM_PUTC c fp)\<lparr>vs_pos := vs_pos fp\<rparr>) = VSTREAM_PUTC c fp"
  by (auto simp: VSTREAM_PUTC_def nth_append list_update_append)

lemma delrcpt_Inr:
  "0 \<le> bl_offset bp \<Longrightarrow>
   bounce_log_delrcpt bp =
     Inr (bp\<lparr>bl_fp := (VSTREAM_PUTC BOUNCE_LOG_STAT_DELETED
                          ((bl_fp bp)\<lparr>vs_pos := nat (bl_offset bp)\<rparr>))
                        \<lparr>vs_pos := vs_pos (bl_fp bp)\<rparr>\<rparr>)"
  by (simp add: bounce_log_delrcpt_def vstream_fseek_def vstream_ftell_def Let_def)

lemma delrcpt_Inl:
  "bl_offset bp < 0 \<Longrightarrow> bounce_log_delrcpt bp = Inl (seek_error_text (bl_fp bp))"
  by (simp add: bounce_log_delrcpt_def vstream_fseek_def vstream_ftell_def Let_def)

lemma delrcpt_twice:
  "(case bounce_log_delrcpt bp of Inl e \<Rightarrow> Inl e | Inr bp1 \<Rightarrow> bounce_log_delrcpt bp1)
     = bounce_log_delrcpt bp"
proof (cases "bl_offset bp < 0")
  case True
  then show ?thesis by (simp add: delrcpt_Inl)
next
  case False
  then have nn: "0 \<le> bl_offset bp" by simp
  let ?fp1 = "(bl_fp bp)\<lparr>vs_pos := nat (bl_offset bp)\<rparr>"
  have "VSTREAM_PUTC BOUNCE_LOG_STAT_DELETED
          ((VSTREAM_PUTC BOUNCE_LOG_STAT_DELETED ?fp1)\<lparr>vs_pos := vs_pos ?fp1\<rparr>)
        = VSTREAM_PUTC BOUNCE_LOG_STAT_DELETED ?fp1"
    by (rule putc_twice)
  then show ?thesis using nn by (simp add: delrcpt_Inr)
qed

lemma delrcpt_data:
  "bounce_log_delrcpt bp = Inr bp1 \<Longrightarrow> 0 \<le> bl_offset bp \<and>
     nat (bl_offset bp) < length (vs_data (bl_fp bp1)) \<and>
     vs_data (bl_fp bp1) ! nat (bl_offset bp) = BOUNCE_LOG_STAT_DELETED
     \<and> (nat (bl_offset bp) < length (vs_data (bl_fp bp)) \<longrightarrow>
          vs_data (bl_fp bp1) = (vs_data (bl_fp bp))[nat (bl_offset bp) := BOUNCE_LOG_STAT_DELETED])"
  by (cases "bl_offset bp < 0")
    (auto simp: delrcpt_Inl delrcpt_Inr VSTREAM_PUTC_def nth_append)

text \<open>
  C9. Marking a record as deleted twice gives the same result as marking it once: the
  same file, the same handle, or the same fatal error. \<open>bounce_log_read\<close> leaves the
  file as it is and returns only records whose first byte is not the sentinel (it is
  \<open><\<close>); so after a record has been marked, no later read of that file, from whatever
  position, returns the record at the marked offset.
\<close>

theorem tombstone_idempotent_and_skipped:
  "(case bounce_log_delrcpt dp of Inl e \<Rightarrow> Inl e | Inr bp1 \<Rightarrow> bounce_log_delrcpt bp1)
     = bounce_log_delrcpt dp
   \<and> (bounce_log_read bp log = (True, bp', log') \<longrightarrow>
        vs_data (bl_fp bp') = vs_data (bl_fp bp) \<and> 0 \<le> bl_offset bp'
        \<and> nat (bl_offset bp') < length (vs_data (bl_fp bp))
        \<and> vs_data (bl_fp bp) ! nat (bl_offset bp') \<noteq> BOUNCE_LOG_STAT_DELETED)
   \<and> (bounce_log_delrcpt dp = Inr bp1 \<and> vs_data (bl_fp rd) = vs_data (bl_fp bp1)
        \<and> bounce_log_read rd log2 = (True, bp2, log3)
        \<longrightarrow> bl_offset bp2 \<noteq> bl_offset dp)"
proof (intro conjI impI)
  show "(case bounce_log_delrcpt dp of Inl e \<Rightarrow> Inl e | Inr bp1 \<Rightarrow> bounce_log_delrcpt bp1)
     = bounce_log_delrcpt dp" by (rule delrcpt_twice)
next
  assume run: "bounce_log_read bp log = (True, bp', log')"
  note live = bounce_log_read_live [OF run]
  from live show "vs_data (bl_fp bp') = vs_data (bl_fp bp)" by simp
  from live show "0 \<le> bl_offset bp'" by simp
  from live show "nat (bl_offset bp') < length (vs_data (bl_fp bp))" by auto
  from live show "vs_data (bl_fp bp) ! nat (bl_offset bp') \<noteq> BOUNCE_LOG_STAT_DELETED"
    by (auto simp: BOUNCE_LOG_STAT_DELETED_def)
next
  assume h: "bounce_log_delrcpt dp = Inr bp1 \<and> vs_data (bl_fp rd) = vs_data (bl_fp bp1)
             \<and> bounce_log_read rd log2 = (True, bp2, log3)"
  then have again: "bounce_log_read rd log2 = (True, bp2, log3)" by simp
  from bounce_log_read_live [OF again] h
  have "vs_data (bl_fp bp1) ! nat (bl_offset bp2) = CHR ''<''" "0 \<le> bl_offset bp2" by auto
  moreover from h delrcpt_data [of dp bp1]
  have "vs_data (bl_fp bp1) ! nat (bl_offset dp) = CHR ''#''"
    by (auto simp: BOUNCE_LOG_STAT_DELETED_def)
  ultimately show "bl_offset bp2 \<noteq> bl_offset dp" by auto
qed

lemmas bl_eval = bounce_log_read.simps bounce_log_open_def defer_file_def vstring_get_nonl_def
  vstream_ftell_def Let_def cstr_def printable_def ISPRINT_ASCII_def BOUNCE_LOG_STAT_DELETED_def
  MAIL_QUEUE_DEFER_def ISSPACE_def defer_log_def

theorem tombstone_idempotent_and_skipped_witness:
  "fst (bounce_log_read defer_log [])
   \<and> bl_recipient (fst (snd (bounce_log_read defer_log []))) = Some ''a@x''
   \<and> bl_offset (fst (snd (bounce_log_read defer_log []))) = 0
   \<and> bounce_log_delrcpt (fst (snd (bounce_log_read defer_log []))) = Inr defer_log_marked
   \<and> bounce_log_delrcpt defer_log_marked = Inr defer_log_marked
   \<and> vs_data (bl_fp defer_log_marked) = CHR ''#'' # tl defer_file
   \<and> fst (bounce_log_read (bounce_log_open ''defer'' ''A1'' (CHR ''#'' # tl defer_file)) [])
   \<and> bl_recipient (fst (snd (bounce_log_read
         (bounce_log_open ''defer'' ''A1'' (CHR ''#'' # tl defer_file)) []))) = Some ''c@z''
   \<and> bl_offset (fst (snd (bounce_log_read
         (bounce_log_open ''defer'' ''A1'' (CHR ''#'' # tl defer_file)) []))) = 24"
proof -
  let ?b1 = "fst (snd (bounce_log_read defer_log []))"
  let ?rd = "bounce_log_open ''defer'' ''A1'' (CHR ''#'' # tl defer_file)"
  let ?b3 = "fst (snd (bounce_log_read ?rd []))"
  have r1: "bounce_log_read defer_log [] = (True, ?b1, [])"
    by (simp add: bl_eval)
  have d1: "bounce_log_delrcpt ?b1 = Inr defer_log_marked"
    by (simp add: bl_eval bounce_log_delrcpt_def vstream_fseek_def VSTREAM_PUTC_def
        defer_log_marked_def)
  have rd: "vs_data (bl_fp ?rd) = vs_data (bl_fp defer_log_marked)"
    by (simp add: bl_eval defer_log_marked_def)
  have r3: "bounce_log_read ?rd [] = (True, ?b3, [])"
    by (simp add: bl_eval)
  have vals: "bl_recipient ?b1 = Some ''a@x''" "bl_offset ?b1 = 0"
    "bl_recipient ?b3 = Some ''c@z''" "bl_offset ?b3 = 24"
    "vs_data (bl_fp defer_log_marked) = CHR ''#'' # tl defer_file"
    "fst (bounce_log_read defer_log [])" "fst (bounce_log_read ?rd [])"
    by (simp_all add: bl_eval defer_log_marked_def)
  from tombstone_idempotent_and_skipped [of ?b1 defer_log "[]" ?b1 "[]" defer_log_marked ?rd "[]"
      ?b3 "[]"]
  show ?thesis using r1 d1 rd r3 vals by simp
qed

section \<open>Properties of alias expansion\<close>

text \<open>
  C8, as the claim states it, fails where its two cases meet: at nesting level 150 with
  the name equal to the alias that the branch came from, \<open>deliver_alias\<close> returns \<open>NO\<close>
  and nothing is bounced. The self-reference test comes first.
\<close>

theorem deliver_alias_deep_self_counterexample:
  "level (staff_state 150 (Some ''Staff'')) > 100
   \<and> deliver_alias staff_env (staff_state 150 (Some ''Staff'')) None ''staff'' 0
       = Inr (NO, 0, [])"
  by (simp add: deliver_alias_def staff_state_def strcaseeq_def tolower_c_def)

text \<open>
  C8, amended. When the name equals, up to case, the alias from which the current
  branch came, \<open>deliver_alias\<close> returns \<open>NO\<close> at once: no table is consulted, nothing is
  expanded, the status is untouched, whatever the nesting level. Otherwise, when the
  nesting level counted with this call exceeds 100, it logs the warning, bounces the
  recipient with the text "possible alias database loop", takes the status from
  \<open>bounce_append\<close> and returns \<open>YES\<close>, again without consulting a table.
\<close>

theorem deliver_alias_guards:
  "((\<exists>from. exp_from (msg_attr state) = Some from \<and> strcaseeq from name) \<longrightarrow>
      deliver_alias env state usr_attr name status = Inr (NO, status, []))
   \<and> (\<not> (\<exists>from. exp_from (msg_attr state) = Some from \<and> strcaseeq from name)
        \<and> level state + 1 > 100 \<longrightarrow>
      deliver_alias env state usr_attr name status =
        Inr (YES,
             bounce_append env (msg_attr (state\<lparr>level := level state + 1\<rparr>))
               (alias_loop_text name),
             [Ev_warn (alias_loop_text name), Ev_bounce (alias_loop_text name)]))"
  by (auto simp: deliver_alias_def Let_def split: option.splits)

theorem deliver_alias_guards_witness:
  "deliver_alias staff_env (staff_state 7 (Some ''STAFF'')) None ''staff'' 3 = Inr (NO, 3, [])
   \<and> deliver_alias staff_env (staff_state 100 (Some ''wheel'')) None ''staff'' 3 =
       Inr (YES, 0, [Ev_warn ''possible alias database loop for staff'',
                     Ev_bounce ''possible alias database loop for staff''])"
proof -
  have a: "\<exists>from. exp_from (msg_attr (staff_state 7 (Some ''STAFF''))) = Some from
             \<and> strcaseeq from ''staff''"
    by (simp add: staff_state_def strcaseeq_def tolower_c_def)
  have b: "\<not> (\<exists>from. exp_from (msg_attr (staff_state 100 (Some ''wheel''))) = Some from
             \<and> strcaseeq from ''staff'')
           \<and> level (staff_state 100 (Some ''wheel'')) + 1 > 100"
    by (simp add: staff_state_def strcaseeq_def tolower_c_def)
  from deliver_alias_guards [of "staff_state 7 (Some ''STAFF'')" "''staff''" staff_env None 3] a
    deliver_alias_guards [of "staff_state 100 (Some ''wheel'')" "''staff''" staff_env None 3] b
  show ?thesis by (simp add: staff_env_def alias_loop_text_def)
qed

section \<open>Properties of the mail exchanger lookup\<close>

lemma dns_rr_insert_mset: "mset (dns_rr_insert compar x ys) = add_mset x (mset ys)"
  by (induction ys) auto

lemma dns_rr_insert_set: "set (dns_rr_insert compar x ys) = insert x (set ys)"
  by (induction ys) auto

lemma smtp_compare_mx_less: "smtp_compare_mx a b < 0 \<longleftrightarrow> mx_pref a < mx_pref b"
  by (simp add: smtp_compare_mx_def)

lemma dns_rr_insert_sorted:
  "sorted (map mx_pref ys) \<Longrightarrow> sorted (map mx_pref (dns_rr_insert smtp_compare_mx x ys))"
  by (induction ys) (auto simp: dns_rr_insert_set smtp_compare_mx_less)

lemma sorted_same_pref: "\<forall>a \<in> set new. f a = (c::nat) \<Longrightarrow> sorted (map f new)"
  by (induction new) auto

lemma dns_rr_sort_foldl:
  "sorted (map mx_pref acc) \<Longrightarrow>
   sorted (map mx_pref (foldl (\<lambda>sorted x. dns_rr_insert smtp_compare_mx x sorted) acc xs))
   \<and> mset (foldl (\<lambda>sorted x. dns_rr_insert smtp_compare_mx x sorted) acc xs) = mset acc + mset xs"
  by (induction xs arbitrary: acc) (auto simp: dns_rr_insert_sorted dns_rr_insert_mset)

lemma dns_rr_sort_sorted:
  "sorted (map mx_pref (dns_rr_sort xs smtp_compare_mx))"
  "mset (dns_rr_sort xs smtp_compare_mx) = mset xs"
  using dns_rr_sort_foldl [of "[]" xs] by (simp_all add: dns_rr_sort_def)

lemma smtp_addr_one_appends:
  "smtp_addr_one cf rs addr_list host prf st = (res, st') \<Longrightarrow>
   \<exists>new. res = addr_list @ new \<and> (\<forall>a \<in> set new. pref a = prf)"
  by (auto simp: smtp_addr_one_def split: if_splits option.splits prod.splits dns_status.splits)

lemma smtp_addr_list_loop_sorted:
  "smtp_addr_list_loop cf rs mxs acc st = Inr (res, st') \<Longrightarrow>
   sorted (map mx_pref mxs) \<Longrightarrow> sorted (map pref acc) \<Longrightarrow>
   (\<forall>a \<in> set acc. \<forall>m \<in> set mxs. pref a \<le> mx_pref m) \<Longrightarrow>
   sorted (map pref res) \<and> (\<forall>a \<in> set res. a \<in> set acc \<or> pref a \<in> mx_pref ` set mxs)"
proof (induction mxs arbitrary: acc st)
  case Nil
  then show ?case by simp
next
  case (Cons rr mxs)
  from Cons.prems(1) have ty: "mx_type rr = T_MX" by (auto split: if_splits)
  obtain acc1 st1 where one: "smtp_addr_one cf rs acc (mx_data rr) (mx_pref rr) st = (acc1, st1)"
    by (cases "smtp_addr_one cf rs acc (mx_data rr) (mx_pref rr) st")
  from smtp_addr_one_appends [OF one] obtain new where
    new: "acc1 = acc @ new" "\<forall>a \<in> set new. pref a = mx_pref rr" by blast
  from Cons.prems(1) ty one have run: "smtp_addr_list_loop cf rs mxs acc1 st1 = Inr (res, st')"
    by simp
  have s1: "sorted (map pref acc1)"
    using Cons.prems(3,4) new sorted_same_pref [of new pref "mx_pref rr"]
    by (auto simp: sorted_append)
  have b1: "\<forall>a \<in> set acc1. \<forall>m \<in> set mxs. pref a \<le> mx_pref m"
    using Cons.prems(2,4) new by auto
  from Cons.IH [OF run _ s1 b1] Cons.prems(2)
  have "sorted (map pref res)"
    "\<forall>a \<in> set res. a \<in> set acc1 \<or> pref a \<in> mx_pref ` set mxs" by auto
  with new show ?case by auto
qed

lemma smtp_addr_list_sorted:
  "smtp_addr_list cf rs mxs st = Inr (res, st') \<Longrightarrow> sorted (map mx_pref mxs) \<Longrightarrow>
   sorted (map pref res) \<and> pref ` set res \<subseteq> mx_pref ` set mxs"
  using smtp_addr_list_loop_sorted [of cf rs mxs "[]" st res st']
  by (auto simp: smtp_addr_list_def)

lemma smtp_find_self_None:
  "smtp_find_self rs xs = None \<longleftrightarrow> (\<forall>a \<in> set xs. data a \<notin> set (own_addrs rs))"
  by (induction xs) (auto simp: list_ex_iff)

lemma smtp_find_self_Some:
  "smtp_find_self rs xs = Some s \<Longrightarrow>
   \<exists>before after. xs = before @ s # after \<and> data s \<in> set (own_addrs rs)
      \<and> (\<forall>a \<in> set before. data a \<notin> set (own_addrs rs))"
proof (induction xs)
  case Nil
  then show ?case by simp
next
  case (Cons x xs)
  show ?case
  proof (cases "list_ex (\<lambda>s. data x = s) (own_addrs rs)")
    case True
    with Cons.prems have "s = x" by simp
    with True have "x # xs = [] @ s # xs \<and> data s \<in> set (own_addrs rs)
        \<and> (\<forall>a \<in> set []. data a \<notin> set (own_addrs rs))"
      by (auto simp: list_ex_iff)
    then show ?thesis by blast
  next
    case False
    with Cons.prems have "smtp_find_self rs xs = Some s" by simp
    from Cons.IH [OF this] obtain before after where
      "xs = before @ s # after" "data s \<in> set (own_addrs rs)"
      "\<forall>a \<in> set before. data a \<notin> set (own_addrs rs)" by blast
    with False have "x # xs = (x # before) @ s # after \<and> data s \<in> set (own_addrs rs)
        \<and> (\<forall>a \<in> set (x # before). data a \<notin> set (own_addrs rs))"
      by (auto simp: list_ex_iff)
    then show ?thesis by blast
  qed
qed

lemma smtp_truncate_self_takeWhile:
  "smtp_truncate_self xs p = takeWhile (\<lambda>a. pref a \<noteq> p) xs"
  by (induction xs) auto

lemma takeWhile_sorted_filter:
  "sorted (map pref xs) \<Longrightarrow> p \<in> pref ` set xs \<Longrightarrow>
   takeWhile (\<lambda>a. pref a \<noteq> p) xs = filter (\<lambda>a. pref a < p) xs"
proof (induction xs)
  case Nil
  then show ?case by simp
next
  case (Cons x xs)
  show ?case
  proof (cases "pref x = p")
    case True
    with Cons.prems(1) have "\<forall>a \<in> set xs. \<not> pref a < p" by auto
    then have "filter (\<lambda>a. pref a < p) xs = []" by (simp add: filter_empty_conv)
    with True show ?thesis by simp
  next
    case False
    with Cons.prems have "p \<in> pref ` set xs" "sorted (map pref xs)" by auto
    with Cons.IH have ih: "takeWhile (\<lambda>a. pref a \<noteq> p) xs = filter (\<lambda>a. pref a < p) xs" by simp
    from Cons.prems(1) \<open>p \<in> pref ` set xs\<close> have "pref x \<le> p" by auto
    with False ih show ?thesis by simp
  qed
qed

lemma truncate_before_self:
  assumes "xs = before @ s # after" and "\<forall>a \<in> set before. data a \<notin> own"
  shows "\<forall>a \<in> set (takeWhile (\<lambda>a. pref a \<noteq> pref s) xs). data a \<notin> own"
proof -
  have "takeWhile (\<lambda>a. pref a \<noteq> pref s) xs = takeWhile (\<lambda>a. pref a \<noteq> pref s) before"
    unfolding assms(1) by (induction before) auto
  with assms(2) show ?thesis by (auto dest: set_takeWhileD)
qed

lemma smtp_domain_addr_ok_eq:
  assumes "\<not> var_disable_dns cf" and "fst (lookup_mx rs name) = DNS_OK"
    and "smtp_addr_list cf rs (mx_sorted rs name) st = Inr (all, st1)"
  shows "smtp_domain_addr cf rs name st =
     (if all = []
      then Inr ([], False,
                smtp_warn (''no MX host for '' @ name @ '' has a valid A record'')
                  (st1\<lparr>smtp_errno := SMTP_RETRY\<rparr>))
      else case smtp_find_self rs all of
             None \<Rightarrow> Inr (all, False, st1)
           | Some self \<Rightarrow>
               if smtp_truncate_self all (pref self) = [] then
                 (if (case mx_sorted rs name of [] \<Rightarrow> IMPOSSIBLE_PREFERENCE
                      | rr # _ \<Rightarrow> mx_pref rr) \<noteq> pref (hd all)
                  then Inr ([], True,
                            st1\<lparr>why := ''unable to find primary relay for '' @ name,
                                smtp_errno := SMTP_RETRY\<rparr>)
                  else if var_bestmx_transp cf \<noteq> []
                  then Inr ([], True, st1\<lparr>smtp_errno := SMTP_OK\<rparr>)
                  else Inr ([], True,
                            (smtp_warn (''mailer loop: best MX host for '' @ name
                                          @ '' is local'') st1)
                              \<lparr>why := ''mail for '' @ name @ '' loops back to myself'',
                               smtp_errno := SMTP_FAIL\<rparr>))
               else Inr (smtp_truncate_self all (pref self), True, st1))"
proof -
  obtain mx w where mx: "lookup_mx rs name = (DNS_OK, mx, w)"
    using assms(2) by (cases "lookup_mx rs name") auto
  then have sorted: "dns_rr_sort mx smtp_compare_mx = mx_sorted rs name"
    by (simp add: mx_sorted_def)
  show ?thesis
    using assms(1,3)
    by (cases all) (simp_all add: smtp_domain_addr_def mx sorted Let_def split: option.splits)
qed

lemma smtp_domain_addr_ok_resolves:
  assumes "fst (lookup_mx rs name) = DNS_OK"
    and "smtp_domain_addr cf rs name st = Inr (addrs, found, st')"
  shows "\<not> var_disable_dns cf \<and>
         (\<exists>st1. smtp_addr_list cf rs (mx_sorted rs name) st = Inr (mx_addrs cf rs name st, st1))"
proof -
  obtain mx w where mx: "lookup_mx rs name = (DNS_OK, mx, w)"
    using assms(1) by (cases "lookup_mx rs name") auto
  then have sorted: "dns_rr_sort mx smtp_compare_mx = mx_sorted rs name"
    by (simp add: mx_sorted_def)
  from assms(2) have dns: "\<not> var_disable_dns cf"
    by (auto simp: smtp_domain_addr_def split: if_splits)
  with assms(2) have "\<exists>al st1. smtp_addr_list cf rs (mx_sorted rs name) st = Inr (al, st1)"
    by (cases "smtp_addr_list cf rs (mx_sorted rs name) st")
      (auto simp: smtp_domain_addr_def mx sorted Let_def)
  with dns show ?thesis by (auto simp: mx_addrs_def)
qed

text \<open>
  C1, amended. When the MX lookup succeeds and \<open>smtp_domain_addr\<close> returns, the
  exchangers were sorted by ascending preference (a permutation of the records looked
  up), and so are the addresses found for them. When none of these addresses is local,
  all of them are returned. When the first local address among them has preference \<open>P\<close>,
  the list is cut at the first entry of preference \<open>P\<close>: exactly the entries with a
  preference below \<open>P\<close> are returned, in order, and none of them is a local address;
  the entries with preference \<open>P\<close> and those with a greater preference are dropped.
\<close>

theorem smtp_domain_addr_truncates:
  assumes "fst (lookup_mx rs name) = DNS_OK"
    and "smtp_domain_addr cf rs name st = Inr (addrs, found, st')"
  shows "sorted (map mx_pref (mx_sorted rs name))
         \<and> mset (mx_sorted rs name) = mset (fst (snd (lookup_mx rs name)))
         \<and> sorted (map pref (mx_addrs cf rs name st))
         \<and> (case smtp_find_self rs (mx_addrs cf rs name st) of
               None \<Rightarrow> \<not> found \<and> addrs = mx_addrs cf rs name st
             | Some self \<Rightarrow>
                 found \<and> data self \<in> set (own_addrs rs)
                 \<and> addrs = filter (\<lambda>a. pref a < pref self) (mx_addrs cf rs name st)
                 \<and> (\<forall>a \<in> set addrs. data a \<notin> set (own_addrs rs)))"
proof -
  let ?all = "mx_addrs cf rs name st"
  from smtp_domain_addr_ok_resolves [OF assms] obtain st1 where
    dns: "\<not> var_disable_dns cf" and
    al: "smtp_addr_list cf rs (mx_sorted rs name) st = Inr (?all, st1)" by blast
  have mxs: "sorted (map mx_pref (mx_sorted rs name))"
    "mset (mx_sorted rs name) = mset (fst (snd (lookup_mx rs name)))"
    by (simp_all add: mx_sorted_def dns_rr_sort_sorted)
  from smtp_addr_list_sorted [OF al mxs(1)] have srt: "sorted (map pref ?all)" by simp
  note eq = smtp_domain_addr_ok_eq [OF dns assms(1) al]
  have "case smtp_find_self rs ?all of
               None \<Rightarrow> \<not> found \<and> addrs = ?all
             | Some self \<Rightarrow>
                 found \<and> data self \<in> set (own_addrs rs)
                 \<and> addrs = filter (\<lambda>a. pref a < pref self) ?all
                 \<and> (\<forall>a \<in> set addrs. data a \<notin> set (own_addrs rs))"
  proof (cases "smtp_find_self rs ?all")
    case None
    with assms(2) eq show ?thesis by (auto split: if_splits)
  next
    case (Some self)
    then have ne: "?all \<noteq> []" by auto
    from smtp_find_self_Some [OF Some] obtain before after where
      pos: "?all = before @ self # after" "data self \<in> set (own_addrs rs)"
      "\<forall>a \<in> set before. data a \<notin> set (own_addrs rs)" by blast
    from pos(1) have "self \<in> set ?all" by (metis in_set_conv_decomp)
    then have mem: "pref self \<in> pref ` set ?all" by blast
    have tr: "smtp_truncate_self ?all (pref self) = filter (\<lambda>a. pref a < pref self) ?all"
      by (simp add: smtp_truncate_self_takeWhile takeWhile_sorted_filter [OF srt mem])
    have res: "found \<and> addrs = smtp_truncate_self ?all (pref self)"
      using assms(2) eq Some ne by (auto split: if_splits)
    have "\<forall>a \<in> set (smtp_truncate_self ?all (pref self)). data a \<notin> set (own_addrs rs)"
      unfolding smtp_truncate_self_takeWhile using pos(1,3) by (rule truncate_before_self)
    with res tr pos(2) Some show ?thesis by simp
  qed
  with mxs srt show ?thesis by simp
qed

lemma sorted_hd_least: "sorted (map f xs) \<Longrightarrow> x \<in> set xs \<Longrightarrow> (f (hd xs) :: nat) \<le> f x"
  by (cases xs) auto

lemma smtp_truncate_self_Nil:
  "smtp_truncate_self xs p = [] \<longleftrightarrow> xs = [] \<or> pref (hd xs) = p"
  by (cases xs) auto

lemma first_self_least:
  assumes f: "smtp_find_self rs xs = Some s" and srt: "sorted (map pref xs)"
    and mem: "self \<in> set xs" and own: "data self \<in> set (own_addrs rs)"
  shows "pref s \<le> pref self"
proof -
  from smtp_find_self_Some [OF f] obtain before after where
    pos: "xs = before @ s # after" "\<forall>a \<in> set before. data a \<notin> set (own_addrs rs)" by blast
  from mem own pos have "self \<in> set (s # after)" by auto
  with srt pos(1) show ?thesis by (auto simp: sorted_append)
qed

text \<open>
  C5. The MX lookup succeeded and addresses were found for the exchangers; a local
  address is among them and no address is more preferred than it, so that the
  truncation at the local host's preference leaves nothing. Then \<open>smtp_domain_addr\<close>
  returns the empty list with \<open>found_myself\<close> set, and: when the DNS lists an
  exchanger with a strictly better preference (none of these has an address among those
  found), the outcome is \<open>SMTP_RETRY\<close> with the reason "unable to find primary relay for
  (domain)"; otherwise the best preference listed is the best preference found, and
  the outcome is \<open>SMTP_OK\<close> when a best-MX transport is configured, and else
  \<open>SMTP_FAIL\<close> with the reason "mail for (domain) loops back to myself".
\<close>

theorem smtp_domain_addr_loop_outcome:
  assumes dns: "\<not> var_disable_dns cf" and ok: "fst (lookup_mx rs name) = DNS_OK"
    and al: "smtp_addr_list cf rs (mx_sorted rs name) st = Inr (all, st1)"
    and mem: "self \<in> set all" and own: "data self \<in> set (own_addrs rs)"
    and best: "\<forall>a \<in> set all. pref self \<le> pref a"
  shows "smtp_domain_addr cf rs name st =
           Inr ([], True,
                if \<exists>m \<in> set (fst (snd (lookup_mx rs name))). mx_pref m < pref self
                then st1\<lparr>why := ''unable to find primary relay for '' @ name,
                         smtp_errno := SMTP_RETRY\<rparr>
                else if var_bestmx_transp cf \<noteq> []
                then st1\<lparr>smtp_errno := SMTP_OK\<rparr>
                else (smtp_warn (''mailer loop: best MX host for '' @ name @ '' is local'') st1)
                       \<lparr>why := ''mail for '' @ name @ '' loops back to myself'',
                        smtp_errno := SMTP_FAIL\<rparr>)
         \<and> (\<exists>s. smtp_find_self rs all = Some s \<and> pref s = pref self
                \<and> smtp_truncate_self all (pref s) = [])
         \<and> pref self \<in> mx_pref ` set (fst (snd (lookup_mx rs name)))
         \<and> (\<forall>m \<in> set (fst (snd (lookup_mx rs name))).
               mx_pref m < pref self \<longrightarrow> (\<forall>a \<in> set all. pref a \<noteq> mx_pref m))"
proof -
  let ?mxs = "mx_sorted rs name"
  let ?dns = "fst (snd (lookup_mx rs name))"
  have mxs: "sorted (map mx_pref ?mxs)" "mset ?mxs = mset ?dns"
    by (simp_all add: mx_sorted_def dns_rr_sort_sorted)
  have set_mx: "set ?mxs = set ?dns" using mxs(2) by (rule mset_eq_setD)
  from smtp_addr_list_sorted [OF al mxs(1)]
  have srt: "sorted (map pref all)" and sub: "pref ` set all \<subseteq> mx_pref ` set ?mxs" by simp_all
  from mem have ne: "all \<noteq> []" by auto
  from mem own have "smtp_find_self rs all \<noteq> None" by (auto simp: smtp_find_self_None)
  then obtain s where s: "smtp_find_self rs all = Some s" by auto
  from smtp_find_self_Some [OF s] have s_mem: "s \<in> set all" by auto
  from first_self_least [OF s srt mem own] best s_mem have ps: "pref s = pref self" by auto
  from ne have "hd all \<in> set all" by simp
  with best sorted_hd_least [OF srt mem] have hd: "pref (hd all) = pref self" by auto
  with ne ps have tr: "smtp_truncate_self all (pref s) = []" by (simp add: smtp_truncate_self_Nil)
  from mem have "pref self \<in> pref ` set all" by (rule imageI)
  with sub have listed0: "pref self \<in> mx_pref ` set ?mxs" by (rule subsetD)
  then have listed: "pref self \<in> mx_pref ` set ?dns" unfolding set_mx .
  from listed0 have mne: "?mxs \<noteq> []" by auto
  then have bp: "(case ?mxs of [] \<Rightarrow> IMPOSSIBLE_PREFERENCE | rr # _ \<Rightarrow> mx_pref rr)
                  = mx_pref (hd ?mxs)"
    by (cases ?mxs) simp_all
  from listed0 obtain m0 where m0: "m0 \<in> set ?mxs" "mx_pref m0 = pref self"
    by (auto simp: image_iff)
  have le: "mx_pref (hd ?mxs) \<le> pref self"
    using sorted_hd_least [OF mxs(1) m0(1)] m0(2) by simp
  have better: "mx_pref (hd ?mxs) \<noteq> pref (hd all)
      \<longleftrightarrow> (\<exists>m \<in> set ?dns. mx_pref m < pref self)"
  proof
    assume "mx_pref (hd ?mxs) \<noteq> pref (hd all)"
    with le hd have "mx_pref (hd ?mxs) < pref self" by simp
    moreover from mne have "hd ?mxs \<in> set ?mxs" by simp
    then have "hd ?mxs \<in> set ?dns" unfolding set_mx .
    ultimately show "\<exists>m \<in> set ?dns. mx_pref m < pref self" by blast
  next
    assume "\<exists>m \<in> set ?dns. mx_pref m < pref self"
    then obtain m where m0: "m \<in> set ?dns" and m1: "mx_pref m < pref self" by blast
    from m0 have "m \<in> set ?mxs" unfolding set_mx .
    note m = this m1
    from sorted_hd_least [OF mxs(1) m(1)] m(2) hd
    show "mx_pref (hd ?mxs) \<noteq> pref (hd all)" by simp
  qed
  have out: "smtp_domain_addr cf rs name st =
           Inr ([], True,
                if \<exists>m \<in> set ?dns. mx_pref m < pref self
                then st1\<lparr>why := ''unable to find primary relay for '' @ name,
                         smtp_errno := SMTP_RETRY\<rparr>
                else if var_bestmx_transp cf \<noteq> []
                then st1\<lparr>smtp_errno := SMTP_OK\<rparr>
                else (smtp_warn (''mailer loop: best MX host for '' @ name @ '' is local'') st1)
                       \<lparr>why := ''mail for '' @ name @ '' loops back to myself'',
                        smtp_errno := SMTP_FAIL\<rparr>)"
  proof -
    note eq = smtp_domain_addr_ok_eq [OF dns ok al, unfolded bp]
    have eq1: "smtp_domain_addr cf rs name st =
         (if mx_pref (hd ?mxs) \<noteq> pref (hd all)
          then Inr ([], True,
                    st1\<lparr>why := ''unable to find primary relay for '' @ name,
                        smtp_errno := SMTP_RETRY\<rparr>)
          else if var_bestmx_transp cf \<noteq> []
          then Inr ([], True, st1\<lparr>smtp_errno := SMTP_OK\<rparr>)
          else Inr ([], True,
                    (smtp_warn (''mailer loop: best MX host for '' @ name
                                  @ '' is local'') st1)
                      \<lparr>why := ''mail for '' @ name @ '' loops back to myself'',
                       smtp_errno := SMTP_FAIL\<rparr>))"
      unfolding eq using ne s tr
      by (simp only: if_False if_True option.case refl)
    show ?thesis
    proof (cases "\<exists>m \<in> set ?dns. mx_pref m < pref self")
      case True
      with better have "mx_pref (hd ?mxs) \<noteq> pref (hd all)" by blast
      with True show ?thesis unfolding eq1 by simp
    next
      case False
      with better have "\<not> mx_pref (hd ?mxs) \<noteq> pref (hd all)" by blast
      with False show ?thesis unfolding eq1 by simp
    qed
  qed
  have none: "\<forall>m \<in> set ?dns. mx_pref m < pref self \<longrightarrow>
      (\<forall>a \<in> set all. pref a \<noteq> mx_pref m)"
  proof (intro ballI impI)
    fix m a assume "mx_pref m < pref self" "a \<in> set all"
    with best show "pref a \<noteq> mx_pref m" by auto
  qed
  from s ps tr have code: "\<exists>s. smtp_find_self rs all = Some s \<and> pref s = pref self
                \<and> smtp_truncate_self all (pref s) = []" by simp
  show ?thesis
    apply (rule conjI)
     apply (rule out)
    apply (rule conjI)
     apply (rule code)
    apply (rule conjI)
     apply (rule listed)
    apply (rule none)
    done
qed

lemmas smtp_eval = smtp_domain_addr_def dns_cf_def three_mx_def mx_of_def smtp0_def Let_def
  dns_rr_sort_def smtp_compare_mx_def smtp_addr_list_def smtp_addr_one_def ISDIGIT_def
  INADDR_NONE_def smtp_warn_def IMPOSSIBLE_PREFERENCE_def mx_addrs_def mx_sorted_def
  rr_a_def rr_me_def rr_c_def

text \<open>
  C1, as the claim states it, fails. The exchangers of \<open>y\<close> have preferences 10, 20
  (the local host) and 30, and each has an address. The entry of preference 30 does not
  have the local host's preference, yet it is not in the list returned: the list is
  truncated, keeping only what is more preferred than the local host.
\<close>

theorem smtp_truncate_counterexample:
  "smtp_domain_addr dns_cf (three_mx True) ''y'' smtp0 = Inr ([rr_a], True, smtp0)
   \<and> mx_addrs dns_cf (three_mx True) ''y'' smtp0 = [rr_a, rr_me, rr_c]
   \<and> smtp_find_self (three_mx True) [rr_a, rr_me, rr_c] = Some rr_me
   \<and> pref rr_me = 20 \<and> pref rr_c = 30 \<and> rr_c \<noteq> rr_a"
  by (simp add: smtp_eval)

theorem smtp_domain_addr_truncates_witness:
  "fst (lookup_mx (three_mx True) ''y'') = DNS_OK
   \<and> smtp_domain_addr dns_cf (three_mx True) ''y'' smtp0 = Inr ([rr_a], True, smtp0)
   \<and> map mx_pref (mx_sorted (three_mx True) ''y'') = [10, 20, 30]
   \<and> mx_addrs dns_cf (three_mx True) ''y'' smtp0 = [rr_a, rr_me, rr_c]
   \<and> smtp_find_self (three_mx True) [rr_a, rr_me, rr_c] = Some rr_me
   \<and> [rr_a] = filter (\<lambda>a. pref a < pref rr_me) [rr_a, rr_me, rr_c]"
proof -
  have ok: "fst (lookup_mx (three_mx True) ''y'') = DNS_OK" by (simp add: three_mx_def)
  have run: "smtp_domain_addr dns_cf (three_mx True) ''y'' smtp0 = Inr ([rr_a], True, smtp0)"
    by (simp add: smtp_eval)
  have vals: "map mx_pref (mx_sorted (three_mx True) ''y'') = [10, 20, 30]"
    "mx_addrs dns_cf (three_mx True) ''y'' smtp0 = [rr_a, rr_me, rr_c]"
    "smtp_find_self (three_mx True) [rr_a, rr_me, rr_c] = Some rr_me"
    by (simp_all add: smtp_eval)
  from smtp_domain_addr_truncates [OF ok run] show ?thesis
    using ok run vals by simp
qed

text \<open>
  The three outcomes: the only exchanger of \<open>solo\<close> is the local host, without and with
  a best-MX transport; the best exchanger of \<open>y\<close> has no address and the local host is
  the next one.
\<close>

theorem smtp_domain_addr_loop_outcome_witness:
  "smtp_addr_list dns_cf (three_mx True) (mx_sorted (three_mx True) ''solo'') smtp0 =
       Inr ([rr_me\<lparr>pref := 10\<rparr>], smtp0)
   \<and> smtp_domain_addr dns_cf (three_mx True) ''solo'' smtp0 =
       Inr ([], True,
            \<lparr>smtp_errno = SMTP_FAIL, why = ''mail for solo loops back to myself'',
             smtp_log = [Msg_warn ''mailer loop: best MX host for solo is local'']\<rparr>)
   \<and> smtp_domain_addr bestmx_cf (three_mx True) ''solo'' smtp0 =
       Inr ([], True, \<lparr>smtp_errno = SMTP_OK, why = [], smtp_log = []\<rparr>)
   \<and> smtp_addr_list dns_cf (three_mx False) (mx_sorted (three_mx False) ''y'') smtp0 =
       Inr ([rr_me, rr_c], smtp0\<lparr>why := ''Host not found'', smtp_errno := SMTP_FAIL\<rparr>)
   \<and> map mx_pref (fst (snd (lookup_mx (three_mx False) ''y''))) = [30, 10, 20]
   \<and> smtp_domain_addr dns_cf (three_mx False) ''y'' smtp0 =
       Inr ([], True,
            \<lparr>smtp_errno = SMTP_RETRY, why = ''unable to find primary relay for y'',
             smtp_log = []\<rparr>)"
proof -
  have dns: "\<not> var_disable_dns dns_cf" "\<not> var_disable_dns bestmx_cf"
    by (simp_all add: dns_cf_def bestmx_cf_def)
  have ok: "fst (lookup_mx (three_mx True) ''solo'') = DNS_OK"
    "fst (lookup_mx (three_mx False) ''y'') = DNS_OK" by (simp_all add: three_mx_def)
  have al1: "smtp_addr_list dns_cf (three_mx True) (mx_sorted (three_mx True) ''solo'') smtp0 =
       Inr ([rr_me\<lparr>pref := 10\<rparr>], smtp0)"
    by (simp add: smtp_eval)
  have al2: "smtp_addr_list bestmx_cf (three_mx True) (mx_sorted (three_mx True) ''solo'') smtp0 =
       Inr ([rr_me\<lparr>pref := 10\<rparr>], smtp0)"
    by (simp add: smtp_eval bestmx_cf_def)
  have al3: "smtp_addr_list dns_cf (three_mx False) (mx_sorted (three_mx False) ''y'') smtp0 =
       Inr ([rr_me, rr_c], smtp0\<lparr>why := ''Host not found'', smtp_errno := SMTP_FAIL\<rparr>)"
    by (simp add: smtp_eval)
  have own: "data (rr_me\<lparr>pref := 10\<rparr>) \<in> set (own_addrs (three_mx True))"
    "data rr_me \<in> set (own_addrs (three_mx False))"
    by (simp_all add: rr_me_def three_mx_def)
  have best: "\<forall>a \<in> set [rr_me\<lparr>pref := 10\<rparr>]. pref (rr_me\<lparr>pref := 10\<rparr>) \<le> pref a"
    "\<forall>a \<in> set [rr_me, rr_c]. pref rr_me \<le> pref a"
    by (simp_all add: rr_me_def rr_c_def)
  have prefs: "map mx_pref (fst (snd (lookup_mx (three_mx True) ''solo''))) = [10]"
    "map mx_pref (fst (snd (lookup_mx (three_mx False) ''y''))) = [30, 10, 20]"
    by (simp_all add: three_mx_def mx_of_def)
  have ex: "\<not> (\<exists>m \<in> set (fst (snd (lookup_mx (three_mx True) ''solo''))).
               mx_pref m < pref (rr_me\<lparr>pref := 10\<rparr>))"
    "\<exists>m \<in> set (fst (snd (lookup_mx (three_mx False) ''y''))). mx_pref m < pref rr_me"
    by (simp_all add: three_mx_def mx_of_def rr_me_def)
  have cfs: "var_bestmx_transp dns_cf = []" "var_bestmx_transp bestmx_cf \<noteq> []"
    by (simp_all add: dns_cf_def bestmx_cf_def)
  from smtp_domain_addr_loop_outcome [OF dns(1) ok(1) al1 _ own(1) best(1)]
  have r1: "smtp_domain_addr dns_cf (three_mx True) ''solo'' smtp0 =
       Inr ([], True,
            \<lparr>smtp_errno = SMTP_FAIL, why = ''mail for solo loops back to myself'',
             smtp_log = [Msg_warn ''mailer loop: best MX host for solo is local'']\<rparr>)"
    using ex(1) cfs(1) by (simp add: smtp_warn_def smtp0_def)
  from smtp_domain_addr_loop_outcome [OF dns(2) ok(1) al2 _ own(1) best(1)]
  have r2: "smtp_domain_addr bestmx_cf (three_mx True) ''solo'' smtp0 =
       Inr ([], True, \<lparr>smtp_errno = SMTP_OK, why = [], smtp_log = []\<rparr>)"
    using ex(1) cfs(2) by (simp add: smtp0_def)
  from smtp_domain_addr_loop_outcome [OF dns(1) ok(2) al3 _ own(2) best(2)]
  have r3: "smtp_domain_addr dns_cf (three_mx False) ''y'' smtp0 =
       Inr ([], True,
            \<lparr>smtp_errno = SMTP_RETRY, why = ''unable to find primary relay for y'',
             smtp_log = []\<rparr>)"
    using ex(2) by (simp add: smtp0_def)
  from al1 r1 r2 al3 prefs(2) r3 show ?thesis by (intro conjI)
qed

section \<open>Properties of the queue entries\<close>

text \<open>The invariant, read on the part of the state it speaks about.\<close>

lemma qmgr_inv_core: "qmgr_inv s = core_inv (core_of s)"
  by (simp add: qmgr_inv_def core_inv_def core_of_def entry_placed_def queue_lists_ok_def
      peer_list_ok_def list_all_iff Let_def)

lemma core_invI:
  assumes "distinct (c_live c)"
    and "\<And>e. e \<in> set (c_live c) \<Longrightarrow>
            e < c_next c \<and> c_eq c e \<in> c_lq c \<and> c_ep c e \<in> c_lp c
            \<and> (e \<in> set (c_todo c (c_eq c e)) \<longleftrightarrow> e \<notin> set (c_busy c (c_eq c e)))
            \<and> (e \<in> set (c_el c (c_ep c e)) \<longleftrightarrow> e \<in> set (c_todo c (c_eq c e)))"
    and "\<And>q. q \<in> c_lq c \<Longrightarrow>
            distinct (c_todo c q) \<and> distinct (c_busy c q)
            \<and> (\<forall>e \<in> set (c_todo c q) \<union> set (c_busy c q). e \<in> set (c_live c) \<and> c_eq c e = q)"
    and "\<And>p. p \<in> c_lp c \<Longrightarrow>
            distinct (c_el c p)
            \<and> (\<forall>e \<in> set (c_el c p). e \<in> set (c_live c) \<and> c_ep c e = p)
            \<and> c_rc c p = int (length (filter (\<lambda>e. c_ep c e = p) (c_live c)))"
  shows "core_inv c"
  unfolding core_inv_def using assms by blast

lemma core_inv_live:
  assumes "core_inv c" and "e \<in> set (c_live c)"
  shows "e < c_next c" and "c_eq c e \<in> c_lq c" and "c_ep c e \<in> c_lp c"
    and "e \<in> set (c_todo c (c_eq c e)) \<longleftrightarrow> e \<notin> set (c_busy c (c_eq c e))"
    and "e \<in> set (c_el c (c_ep c e)) \<longleftrightarrow> e \<in> set (c_todo c (c_eq c e))"
  using assms unfolding core_inv_def by blast+

lemma core_inv_queue:
  assumes "core_inv c" and "q \<in> c_lq c"
  shows "distinct (c_todo c q)" and "distinct (c_busy c q)"
    and "\<And>e. e \<in> set (c_todo c q) \<Longrightarrow> e \<in> set (c_live c) \<and> c_eq c e = q"
    and "\<And>e. e \<in> set (c_busy c q) \<Longrightarrow> e \<in> set (c_live c) \<and> c_eq c e = q"
  using assms unfolding core_inv_def by blast+

lemma core_inv_peer:
  assumes "core_inv c" and "p \<in> c_lp c"
  shows "distinct (c_el c p)"
    and "\<And>e. e \<in> set (c_el c p) \<Longrightarrow> e \<in> set (c_live c) \<and> c_ep c e = p"
    and "c_rc c p = int (length (filter (\<lambda>e. c_ep c e = p) (c_live c)))"
  using assms unfolding core_inv_def by blast+

lemma core_inv_distinct: "core_inv c \<Longrightarrow> distinct (c_live c)"
  by (simp add: core_inv_def)

lemma filter_removeAll_len:
  "distinct xs \<Longrightarrow> e \<in> set xs \<Longrightarrow>
   int (length (filter P (removeAll e xs))) = int (length (filter P xs)) - (if P e then 1 else 0)"
  by (induction xs) auto

text \<open>
  Steps on the core that keep the invariant: an entry is freed, a peer without entries
  is freed, an empty queue is freed, an entry moves between the lists of its queue, and a
  new entry is appended.
\<close>

lemma core_remove:
  assumes inv: "core_inv c" and live: "e \<in> set (c_live c)"
  shows "core_inv (c\<lparr>c_live := removeAll e (c_live c),
            c_todo := (c_todo c)(c_eq c e := remove1 e (c_todo c (c_eq c e))),
            c_busy := (c_busy c)(c_eq c e := remove1 e (c_busy c (c_eq c e))),
            c_el := (c_el c)(c_ep c e := remove1 e (c_el c (c_ep c e))),
            c_rc := (c_rc c)(c_ep c e := c_rc c (c_ep c e) - 1)\<rparr>)"
    (is "core_inv ?c'")
proof (rule core_invI)
  note d = core_inv_distinct [OF inv]
  note le = core_inv_live [OF inv live]
  note dq = core_inv_queue(1,2) [OF inv le(2)]
  note dp = core_inv_peer(1) [OF inv le(3)]
  show "distinct (c_live ?c')" using d by (simp add: distinct_removeAll)
  show "e' < c_next ?c' \<and> c_eq ?c' e' \<in> c_lq ?c' \<and> c_ep ?c' e' \<in> c_lp ?c'
        \<and> (e' \<in> set (c_todo ?c' (c_eq ?c' e')) \<longleftrightarrow> e' \<notin> set (c_busy ?c' (c_eq ?c' e')))
        \<and> (e' \<in> set (c_el ?c' (c_ep ?c' e')) \<longleftrightarrow> e' \<in> set (c_todo ?c' (c_eq ?c' e')))"
    if "e' \<in> set (c_live ?c')" for e'
  proof -
    from that have l': "e' \<in> set (c_live c)" and ne: "e' \<noteq> e" by auto
    note le' = core_inv_live [OF inv l']
    have sel: "c_next ?c' = c_next c" "c_eq ?c' = c_eq c" "c_ep ?c' = c_ep c"
      "c_lq ?c' = c_lq c" "c_lp ?c' = c_lp c" by simp_all
    have m: "\<And>q. (e' \<in> set (c_todo ?c' q)) = (e' \<in> set (c_todo c q))"
      "\<And>q. (e' \<in> set (c_busy ?c' q)) = (e' \<in> set (c_busy c q))"
      "\<And>p. (e' \<in> set (c_el ?c' p)) = (e' \<in> set (c_el c p))"
      using ne by simp_all
    show ?thesis unfolding sel m using le' by blast
  qed
  show "distinct (c_todo ?c' q) \<and> distinct (c_busy ?c' q)
        \<and> (\<forall>x \<in> set (c_todo ?c' q) \<union> set (c_busy ?c' q). x \<in> set (c_live ?c') \<and> c_eq ?c' x = q)"
    if "q \<in> c_lq ?c'" for q
  proof -
    from that have ql: "q \<in> c_lq c" by simp
    note qq = core_inv_queue [OF inv ql]
    have sel: "c_live ?c' = removeAll e (c_live c)" "c_eq ?c' = c_eq c" by simp_all
    have td: "c_todo ?c' q = (if q = c_eq c e then remove1 e (c_todo c q) else c_todo c q)"
      and bs: "c_busy ?c' q = (if q = c_eq c e then remove1 e (c_busy c q) else c_busy c q)"
      by simp_all
    have dt: "distinct (c_todo ?c' q)" unfolding td using qq(1) by auto
    have db: "distinct (c_busy ?c' q)" unfolding bs using qq(2) by auto
    have st: "set (c_todo ?c' q) \<subseteq> set (c_todo c q) - {e}"
      unfolding td using qq(1,3) by (auto simp: set_remove1_eq)
    have sb: "set (c_busy ?c' q) \<subseteq> set (c_busy c q) - {e}"
      unfolding bs using qq(2,4) by (auto simp: set_remove1_eq)
    have "x \<in> set (c_live ?c') \<and> c_eq ?c' x = q"
      if "x \<in> set (c_todo ?c' q) \<union> set (c_busy ?c' q)" for x
    proof -
      from that st sb have "x \<noteq> e" "x \<in> set (c_todo c q) \<or> x \<in> set (c_busy c q)" by auto
      with qq(3,4) show ?thesis unfolding sel by auto
    qed
    with dt db show ?thesis by blast
  qed
  show "distinct (c_el ?c' p)
        \<and> (\<forall>x \<in> set (c_el ?c' p). x \<in> set (c_live ?c') \<and> c_ep ?c' x = p)
        \<and> c_rc ?c' p = int (length (filter (\<lambda>x. c_ep ?c' x = p) (c_live ?c')))"
    if "p \<in> c_lp ?c'" for p
  proof -
    from that have pl: "p \<in> c_lp c" by simp
    note pp = core_inv_peer [OF inv pl]
    have sel: "c_live ?c' = removeAll e (c_live c)" "c_ep ?c' = c_ep c" by simp_all
    have el: "c_el ?c' p = (if p = c_ep c e then remove1 e (c_el c p) else c_el c p)"
      and rc: "c_rc ?c' p = c_rc c p - (if c_ep c e = p then 1 else 0)"
      by auto
    have cnt: "int (length (filter (\<lambda>x. c_ep c x = p) (removeAll e (c_live c)))) =
        int (length (filter (\<lambda>x. c_ep c x = p) (c_live c))) - (if c_ep c e = p then 1 else 0)"
      using d live by (rule filter_removeAll_len)
    have de: "distinct (c_el ?c' p)" unfolding el using pp(1) by auto
    have se: "set (c_el ?c' p) \<subseteq> set (c_el c p) - {e}"
      unfolding el using pp(1,2) by (auto simp: set_remove1_eq)
    have mem: "x \<in> set (c_live ?c') \<and> c_ep ?c' x = p" if "x \<in> set (c_el ?c' p)" for x
    proof -
      from that se have "x \<noteq> e" "x \<in> set (c_el c p)" by auto
      with pp(2) show ?thesis unfolding sel by auto
    qed
    have "c_rc ?c' p = int (length (filter (\<lambda>x. c_ep ?c' x = p) (c_live ?c')))"
      unfolding sel rc cnt using pp(3) by simp
    with de mem show ?thesis by blast
  qed
qed

lemma core_peer_free:
  assumes inv: "core_inv c" and rc: "c_rc c p = 0" and pl: "p \<in> c_lp c"
  shows "core_inv (c\<lparr>c_lp := c_lp c - {p}\<rparr>)" (is "core_inv ?c'")
proof (rule core_invI)
  from core_inv_peer(3) [OF inv pl] rc
  have "filter (\<lambda>e. c_ep c e = p) (c_live c) = []" by simp
  then have none: "\<And>e. e \<in> set (c_live c) \<Longrightarrow> c_ep c e \<noteq> p"
    by (simp add: filter_empty_conv)
  show "distinct (c_live ?c')" using core_inv_distinct [OF inv] by simp
  show "e < c_next ?c' \<and> c_eq ?c' e \<in> c_lq ?c' \<and> c_ep ?c' e \<in> c_lp ?c'
        \<and> (e \<in> set (c_todo ?c' (c_eq ?c' e)) \<longleftrightarrow> e \<notin> set (c_busy ?c' (c_eq ?c' e)))
        \<and> (e \<in> set (c_el ?c' (c_ep ?c' e)) \<longleftrightarrow> e \<in> set (c_todo ?c' (c_eq ?c' e)))"
    if "e \<in> set (c_live ?c')" for e
  proof -
    from that have l: "e \<in> set (c_live c)" by simp
    from core_inv_live [OF inv l] none [OF l] show ?thesis by simp
  qed
  show "distinct (c_todo ?c' q) \<and> distinct (c_busy ?c' q)
        \<and> (\<forall>x \<in> set (c_todo ?c' q) \<union> set (c_busy ?c' q). x \<in> set (c_live ?c') \<and> c_eq ?c' x = q)"
    if "q \<in> c_lq ?c'" for q
  proof -
    from that have ql: "q \<in> c_lq c" by simp
    from core_inv_queue [OF inv ql] show ?thesis by auto
  qed
  show "distinct (c_el ?c' p')
        \<and> (\<forall>x \<in> set (c_el ?c' p'). x \<in> set (c_live ?c') \<and> c_ep ?c' x = p')
        \<and> c_rc ?c' p' = int (length (filter (\<lambda>x. c_ep ?c' x = p') (c_live ?c')))"
    if "p' \<in> c_lp ?c'" for p'
  proof -
    from that have pl': "p' \<in> c_lp c" by simp
    from core_inv_peer [OF inv pl'] show ?thesis by auto
  qed
qed

lemma core_queue_done:
  assumes inv: "core_inv c" and empty: "c_todo c q = []" "c_busy c q = []"
  shows "core_inv (c\<lparr>c_lq := c_lq c - {q}\<rparr>)" (is "core_inv ?c'")
proof (rule core_invI)
  show "distinct (c_live ?c')" using core_inv_distinct [OF inv] by simp
  show "e < c_next ?c' \<and> c_eq ?c' e \<in> c_lq ?c' \<and> c_ep ?c' e \<in> c_lp ?c'
        \<and> (e \<in> set (c_todo ?c' (c_eq ?c' e)) \<longleftrightarrow> e \<notin> set (c_busy ?c' (c_eq ?c' e)))
        \<and> (e \<in> set (c_el ?c' (c_ep ?c' e)) \<longleftrightarrow> e \<in> set (c_todo ?c' (c_eq ?c' e)))"
    if "e \<in> set (c_live ?c')" for e
  proof -
    from that have l: "e \<in> set (c_live c)" by simp
    note le = core_inv_live [OF inv l]
    from le(4) empty have "c_eq c e \<noteq> q" by auto
    with le show ?thesis by simp
  qed
  show "distinct (c_todo ?c' q') \<and> distinct (c_busy ?c' q')
        \<and> (\<forall>x \<in> set (c_todo ?c' q') \<union> set (c_busy ?c' q').
              x \<in> set (c_live ?c') \<and> c_eq ?c' x = q')"
    if "q' \<in> c_lq ?c'" for q'
  proof -
    from that have ql: "q' \<in> c_lq c" by simp
    from core_inv_queue [OF inv ql] show ?thesis by auto
  qed
  show "distinct (c_el ?c' p)
        \<and> (\<forall>x \<in> set (c_el ?c' p). x \<in> set (c_live ?c') \<and> c_ep ?c' x = p)
        \<and> c_rc ?c' p = int (length (filter (\<lambda>x. c_ep ?c' x = p) (c_live ?c')))"
    if "p \<in> c_lp ?c'" for p
  proof -
    from that have pl: "p \<in> c_lp c" by simp
    from core_inv_peer [OF inv pl] show ?thesis by auto
  qed
qed

text \<open>Moving a live entry between the lists of its queue.\<close>

lemma core_move:
  assumes inv: "core_inv c" and live: "e \<in> set (c_live c)"
    and td: "c_todo c' = (c_todo c)(c_eq c e := t')"
    and bs: "c_busy c' = (c_busy c)(c_eq c e := b')"
    and el: "c_el c' = (c_el c)(c_ep c e := l')"
    and rest: "c_live c' = c_live c" "c_next c' = c_next c" "c_eq c' = c_eq c"
      "c_ep c' = c_ep c" "c_lq c' = c_lq c" "c_lp c' = c_lp c" "c_rc c' = c_rc c"
    and dist: "distinct t'" "distinct b'" "distinct l'"
    and both: "\<And>x. x \<in> set t' \<or> x \<in> set b' \<longleftrightarrow>
                 x \<in> set (c_todo c (c_eq c e)) \<or> x \<in> set (c_busy c (c_eq c e))"
    and disj: "\<And>x. \<not> (x \<in> set t' \<and> x \<in> set b')"
    and lo: "\<And>x. x \<noteq> e \<Longrightarrow> x \<in> set l' \<longleftrightarrow> x \<in> set (c_el c (c_ep c e))"
    and le_t: "e \<in> set l' \<longleftrightarrow> e \<in> set t'"
    and others: "\<And>x. x \<noteq> e \<Longrightarrow> x \<in> set t' \<longleftrightarrow> x \<in> set (c_todo c (c_eq c e))"
  shows "core_inv c'"
proof (rule core_invI)
  note le = core_inv_live [OF inv live]
  note qq = core_inv_queue [OF inv le(2)]
  note pp = core_inv_peer [OF inv le(3)]
  have t_at: "c_todo c' (c_eq c e) = t'" and b_at: "c_busy c' (c_eq c e) = b'"
    and l_at: "c_el c' (c_ep c e) = l'"
    by (simp_all add: td bs el)
  have t_off: "\<And>q. q \<noteq> c_eq c e \<Longrightarrow> c_todo c' q = c_todo c q"
    and b_off: "\<And>q. q \<noteq> c_eq c e \<Longrightarrow> c_busy c' q = c_busy c q"
    and l_off: "\<And>p. p \<noteq> c_ep c e \<Longrightarrow> c_el c' p = c_el c p"
    by (simp_all add: td bs el)
  show "distinct (c_live c')" using core_inv_distinct [OF inv] rest(1) by simp
  show "x < c_next c' \<and> c_eq c' x \<in> c_lq c' \<and> c_ep c' x \<in> c_lp c'
        \<and> (x \<in> set (c_todo c' (c_eq c' x)) \<longleftrightarrow> x \<notin> set (c_busy c' (c_eq c' x)))
        \<and> (x \<in> set (c_el c' (c_ep c' x)) \<longleftrightarrow> x \<in> set (c_todo c' (c_eq c' x)))"
    if "x \<in> set (c_live c')" for x
  proof -
    from that rest(1) have l: "x \<in> set (c_live c)" by simp
    note lx = core_inv_live [OF inv l]
    have q1: "x \<in> set (c_todo c' (c_eq c x)) \<longleftrightarrow> x \<notin> set (c_busy c' (c_eq c x))"
    proof (cases "c_eq c x = c_eq c e")
      case True
      from lx(4) have "x \<in> set (c_todo c (c_eq c x)) \<or> x \<in> set (c_busy c (c_eq c x))"
        by blast
      then have "x \<in> set t' \<or> x \<in> set b'" unfolding True using both [of x] by blast
      with disj [of x] show ?thesis unfolding True t_at b_at by blast
    next
      case False
      from lx(4) show ?thesis unfolding t_off [OF False] b_off [OF False] .
    qed
    have q2: "x \<in> set (c_el c' (c_ep c x)) \<longleftrightarrow> x \<in> set (c_todo c' (c_eq c x))"
    proof (cases "x = e")
      case True
      from le_t show ?thesis unfolding True t_at l_at .
    next
      case ne: False
      have a: "x \<in> set (c_el c' (c_ep c x)) \<longleftrightarrow> x \<in> set (c_el c (c_ep c x))"
      proof (cases "c_ep c x = c_ep c e")
        case True
        from lo [OF ne] show ?thesis unfolding True l_at .
      next
        case False
        show ?thesis unfolding l_off [OF False] ..
      qed
      have b: "x \<in> set (c_todo c' (c_eq c x)) \<longleftrightarrow> x \<in> set (c_todo c (c_eq c x))"
      proof (cases "c_eq c x = c_eq c e")
        case True
        from others [OF ne] show ?thesis unfolding True t_at .
      next
        case False
        show ?thesis unfolding t_off [OF False] ..
      qed
      from lx(5) show ?thesis unfolding a b .
    qed
    from lx(1,2,3) q1 q2 show ?thesis unfolding rest by blast
  qed
  show "distinct (c_todo c' q) \<and> distinct (c_busy c' q)
        \<and> (\<forall>x \<in> set (c_todo c' q) \<union> set (c_busy c' q). x \<in> set (c_live c') \<and> c_eq c' x = q)"
    if "q \<in> c_lq c'" for q
  proof (cases "q = c_eq c e")
    case True
    have "x \<in> set (c_live c) \<and> c_eq c x = c_eq c e" if "x \<in> set t' \<or> x \<in> set b'" for x
      using that both [of x] qq(3) [of x] qq(4) [of x] by blast
    then show ?thesis unfolding True t_at b_at rest using dist(1,2) by blast
  next
    case False
    from that rest(5) have ql: "q \<in> c_lq c" by simp
    from core_inv_queue [OF inv ql] show ?thesis
      unfolding t_off [OF False] b_off [OF False] rest by blast
  qed
  show "distinct (c_el c' p)
        \<and> (\<forall>x \<in> set (c_el c' p). x \<in> set (c_live c') \<and> c_ep c' x = p)
        \<and> c_rc c' p = int (length (filter (\<lambda>x. c_ep c' x = p) (c_live c')))"
    if "p \<in> c_lp c'" for p
  proof (cases "p = c_ep c e")
    case True
    have "x \<in> set (c_live c) \<and> c_ep c x = c_ep c e" if "x \<in> set l'" for x
      using that lo [of x] pp(2) [of x] live by blast
    with pp(3) show ?thesis unfolding True l_at rest using dist(3) by blast
  next
    case False
    from that rest(6) have pl: "p \<in> c_lp c" by simp
    from core_inv_peer [OF inv pl] show ?thesis
      unfolding l_off [OF False] rest by blast
  qed
qed

lemma core_create:
  assumes inv: "core_inv c" and pl: "p \<in> c_lp c" and ql: "q \<in> c_lq c"
  shows "core_inv (c\<lparr>c_live := c_live c @ [c_next c], c_next := Suc (c_next c),
            c_eq := (c_eq c)(c_next c := q), c_ep := (c_ep c)(c_next c := p),
            c_todo := (c_todo c)(q := c_todo c q @ [c_next c]),
            c_el := (c_el c)(p := c_el c p @ [c_next c]),
            c_rc := (c_rc c)(p := c_rc c p + 1)\<rparr>)" (is "core_inv ?c'")
proof (rule core_invI)
  let ?n = "c_next c"
  have fresh: "?n \<notin> set (c_live c)" using core_inv_live(1) [OF inv, of ?n] by auto
  note qq = core_inv_queue [OF inv ql]
  note pp = core_inv_peer [OF inv pl]
  from qq(3) [of ?n] fresh have nt: "?n \<notin> set (c_todo c q)" by blast
  from qq(4) [of ?n] fresh have nb: "?n \<notin> set (c_busy c q)" by blast
  from pp(2) [of ?n] fresh have nl: "?n \<notin> set (c_el c p)" by blast
  have sel: "c_live ?c' = c_live c @ [?n]" "c_next ?c' = Suc ?n" "c_lq ?c' = c_lq c"
    "c_lp ?c' = c_lp c" "c_busy ?c' = c_busy c" by simp_all
  have eq_old: "\<And>x. x \<noteq> ?n \<Longrightarrow> c_eq ?c' x = c_eq c x"
    and ep_old: "\<And>x. x \<noteq> ?n \<Longrightarrow> c_ep ?c' x = c_ep c x"
    and eq_new: "c_eq ?c' ?n = q" and ep_new: "c_ep ?c' ?n = p" by simp_all
  have t_set: "\<And>q'. set (c_todo ?c' q') = set (c_todo c q') \<union> (if q' = q then {?n} else {})"
    and l_set: "\<And>p'. set (c_el ?c' p') = set (c_el c p') \<union> (if p' = p then {?n} else {})"
    by simp_all
  show "distinct (c_live ?c')" using core_inv_distinct [OF inv] fresh by simp
  show "x < c_next ?c' \<and> c_eq ?c' x \<in> c_lq ?c' \<and> c_ep ?c' x \<in> c_lp ?c'
        \<and> (x \<in> set (c_todo ?c' (c_eq ?c' x)) \<longleftrightarrow> x \<notin> set (c_busy ?c' (c_eq ?c' x)))
        \<and> (x \<in> set (c_el ?c' (c_ep ?c' x)) \<longleftrightarrow> x \<in> set (c_todo ?c' (c_eq ?c' x)))"
    if "x \<in> set (c_live ?c')" for x
  proof (cases "x = ?n")
    case True
    show ?thesis unfolding True eq_new ep_new sel t_set l_set using ql pl nb by simp
  next
    case False
    with that have l: "x \<in> set (c_live c)" by simp
    note lx = core_inv_live [OF inv l]
    from lx False show ?thesis
      unfolding eq_old [OF False] ep_old [OF False] sel t_set l_set by auto
  qed
  show "distinct (c_todo ?c' q') \<and> distinct (c_busy ?c' q')
        \<and> (\<forall>x \<in> set (c_todo ?c' q') \<union> set (c_busy ?c' q').
              x \<in> set (c_live ?c') \<and> c_eq ?c' x = q')"
    if "q' \<in> c_lq ?c'" for q'
  proof -
    from that have ql': "q' \<in> c_lq c" by simp
    note q' = core_inv_queue [OF inv ql']
    have d: "distinct (c_todo ?c' q')" using q'(1) nt by (cases "q' = q") simp_all
    have m: "x \<in> set (c_live ?c') \<and> c_eq ?c' x = q'"
      if "x \<in> set (c_todo ?c' q') \<union> set (c_busy ?c' q')" for x
    proof (cases "x = ?n")
      case True
      from that nb q'(3) [of ?n] q'(4) [of ?n] fresh have "q' = q"
        unfolding True t_set sel by (auto split: if_splits)
      then show ?thesis unfolding True eq_new sel by simp
    next
      case False
      from that False have "x \<in> set (c_todo c q') \<or> x \<in> set (c_busy c q')"
        unfolding t_set sel by (auto split: if_splits)
      with q'(3) [of x] q'(4) [of x] show ?thesis
        unfolding eq_old [OF False] sel by auto
    qed
    from d q'(2) m show ?thesis unfolding sel by blast
  qed
  show "distinct (c_el ?c' p')
        \<and> (\<forall>x \<in> set (c_el ?c' p'). x \<in> set (c_live ?c') \<and> c_ep ?c' x = p')
        \<and> c_rc ?c' p' = int (length (filter (\<lambda>x. c_ep ?c' x = p') (c_live ?c')))"
    if "p' \<in> c_lp ?c'" for p'
  proof -
    from that have pl': "p' \<in> c_lp c" by simp
    note p' = core_inv_peer [OF inv pl']
    have d: "distinct (c_el ?c' p')" using p'(1) nl by (cases "p' = p") simp_all
    have m: "x \<in> set (c_live ?c') \<and> c_ep ?c' x = p'" if "x \<in> set (c_el ?c' p')" for x
    proof (cases "x = ?n")
      case True
      from that p'(2) [of ?n] fresh have "p' = p"
        unfolding True l_set by (auto split: if_splits)
      then show ?thesis unfolding True ep_new sel by simp
    next
      case False
      from that False have "x \<in> set (c_el c p')" unfolding l_set by (auto split: if_splits)
      with p'(2) [of x] show ?thesis unfolding ep_old [OF False] sel by auto
    qed
    have "filter (\<lambda>x. c_ep ?c' x = p') (c_live c) = filter (\<lambda>x. c_ep c x = p') (c_live c)"
      using fresh by (intro filter_cong) auto
    then have "int (length (filter (\<lambda>x. c_ep ?c' x = p') (c_live ?c'))) =
        int (length (filter (\<lambda>x. c_ep c x = p') (c_live c))) + (if p' = p then 1 else 0)"
      unfolding sel by (simp add: ep_new)
    moreover have "c_rc ?c' p' = c_rc c p' + (if p' = p then 1 else 0)" by simp
    ultimately have "c_rc ?c' p' = int (length (filter (\<lambda>x. c_ep ?c' x = p') (c_live ?c')))"
      using p'(3) by simp
    with d m show ?thesis by blast
  qed
qed

lemmas qmgr_upd_defs = upd_queue_def upd_peer_def upd_job_def upd_message_def upd_transport_def
  QMGR_LIST_UNLINK_def QMGR_LIST_APPEND_def

text \<open>The operations, one by one.\<close>

lemma inv_peer_head:
  assumes "qmgr_inv s" and "peer \<in> live_peers s"
    and "entry_list (peers s peer) = entry # rest"
  shows "e_peer (entries s entry) = peer" and "entry \<in> set (live_entries s)"
    and "entry \<notin> set rest"
    and "entry \<in> set (todo (queues s (e_queue (entries s entry))))"
    and "entry \<notin> set (busy (queues s (e_queue (entries s entry))))"
proof -
  from assms(1,2) have ok: "peer_list_ok s peer" by (simp add: qmgr_inv_def)
  with assms(3) show p: "e_peer (entries s entry) = peer" and l: "entry \<in> set (live_entries s)"
    and "entry \<notin> set rest"
    by (simp_all add: peer_list_ok_def)
  from assms(1) l have "entry_placed s entry" by (auto simp: qmgr_inv_def list_all_iff)
  with p assms(3) show "entry \<in> set (todo (queues s (e_queue (entries s entry))))"
    and "entry \<notin> set (busy (queues s (e_queue (entries s entry))))"
    by (auto simp: entry_placed_def Let_def)
qed

lemma select_Some:
  "qmgr_entry_select peer s = (Some entry, s1) \<Longrightarrow>
   \<exists>rest. entry_list (peers s peer) = entry # rest"
  by (auto simp: qmgr_entry_select_def Let_def split: list.splits)

lemma select_result:
  assumes "entry_list (peers s peer) = entry # rest"
  shows "qmgr_entry_select peer s =
     (Some entry,
      s\<lparr>queues := (queues s)(e_queue (entries s entry) :=
           (queues s (e_queue (entries s entry)))
             \<lparr>todo := remove1 entry (todo (queues s (e_queue (entries s entry)))),
              busy := busy (queues s (e_queue (entries s entry))) @ [entry],
              todo_refcount := todo_refcount (queues s (e_queue (entries s entry))) - 1,
              busy_refcount := busy_refcount (queues s (e_queue (entries s entry))) + 1\<rparr>),
        peers := (peers s)(peer := (peers s peer)\<lparr>entry_list := rest\<rparr>),
        jobs := (jobs s)(p_job (peers s peer) :=
           (jobs s (p_job (peers s peer)))
             \<lparr>selected_entries := selected_entries (jobs s (p_job (peers s peer))) + 1\<rparr>)\<rparr>)"
  using assms
  by (auto simp: qmgr_entry_select_def Let_def qmgr_upd_defs fun_eq_iff
      intro!: qmgr.equality qmgr_queue.equality)

lemma select_unselect:
  assumes inv: "qmgr_inv s" and live: "peer \<in> live_peers s"
    and sel: "qmgr_entry_select peer s = (Some entry, s1)"
  shows "qmgr_entry_unselect entry s1 =
     s\<lparr>queues := (queues s)(e_queue (entries s entry) :=
           (queues s (e_queue (entries s entry)))
             \<lparr>todo := remove1 entry (todo (queues s (e_queue (entries s entry)))) @ [entry]\<rparr>),
        peers := (peers s)(peer :=
           (peers s peer)\<lparr>entry_list := tl (entry_list (peers s peer)) @ [entry]\<rparr>)\<rparr>"
proof -
  from select_Some [OF sel] obtain rest where el: "entry_list (peers s peer) = entry # rest"
    by blast
  note h = inv_peer_head [OF inv live el]
  from sel select_result [OF el] have s1: "s1 = snd (qmgr_entry_select peer s)" by simp
  show ?thesis
    unfolding s1 select_result [OF el]
    using h(1,5) el
    by (auto simp: qmgr_entry_unselect_def Let_def qmgr_upd_defs remove1_append fun_eq_iff
        intro!: qmgr.equality qmgr_queue.equality qmgr_peer.equality qmgr_job.equality)
qed

lemma core_of_simps [simp]:
  "core_of (upd_job j fj s) = core_of s"
  "core_of (upd_message m fm s) = core_of s"
  "core_of (upd_transport t ft s) = core_of s"
  "core_of (qmgr_job_move_limits ml j s) = core_of s"
  "core_of (qmgr_active_done m s) = core_of s"
  "core_of (s\<lparr>qmgr_recipient_count := n\<rparr>) = core_of s"
  by (simp_all add: core_of_def upd_job_def upd_message_def upd_transport_def
      qmgr_job_move_limits_def qmgr_active_done_def split: prod.splits)

lemma core_of_sponsor_loop [simp]: "core_of (sponsor_loop ml m j xs s) = core_of s"
  by (induction xs arbitrary: s) simp_all

lemma core_of_upd_queue_same:
  "(\<And>q. todo (f q) = todo q \<and> busy (f q) = busy q) \<Longrightarrow> core_of (upd_queue queue f s) = core_of s"
  by (simp add: core_of_def upd_queue_def fun_eq_iff)

lemma core_of_done_limits [simp]: "core_of (done_limits ml m j s) = core_of s"
  by (simp add: done_limits_def Let_def)

lemma core_of_done_blocker [simp]: "core_of (done_blocker q t s) = core_of s"
  by (simp add: done_blocker_def Let_def core_of_upd_queue_same)

lemma core_of_done_message [simp]: "core_of (done_message m s) = core_of s"
  by (simp add: done_message_def Let_def)

lemma core_of_unthrottle [simp]: "core_of (qmgr_queue_unthrottle q s) = core_of s"
  by (simp add: qmgr_queue_unthrottle_def core_of_upd_queue_same)

lemma inv_select:
  assumes inv: "qmgr_inv s" and live: "peer \<in> live_peers s"
  shows "qmgr_inv (snd (qmgr_entry_select peer s))"
proof (cases "entry_list (peers s peer)")
  case Nil
  with inv show ?thesis by (simp add: qmgr_entry_select_def)
next
  case (Cons e rest)
  let ?c = "core_of s"
  let ?q = "e_queue (entries s e)"
  note h = inv_peer_head [OF inv live Cons]
  from inv have ci: "core_inv ?c" by (simp add: qmgr_inv_core)
  have cl: "e \<in> set (c_live ?c)" using h(2) by (simp add: core_of_def)
  have ids: "c_eq ?c e = ?q" "c_ep ?c e = peer" using h(1) by (simp_all add: core_of_def)
  note le = core_inv_live [OF ci cl]
  note qq = core_inv_queue [OF ci le(2)]
  note pp = core_inv_peer [OF ci le(3)]
  have td: "c_todo ?c ?q = todo (queues s ?q)" and bs: "c_busy ?c ?q = busy (queues s ?q)"
    and el: "c_el ?c peer = e # rest" using Cons by (simp_all add: core_of_def)
  let ?s' = "snd (qmgr_entry_select peer s)"
  have "core_inv (core_of ?s')"
  proof (rule core_move [OF ci cl, where t' = "remove1 e (todo (queues s ?q))"
        and b' = "busy (queues s ?q) @ [e]" and l' = rest])
    show "c_todo (core_of ?s') = (c_todo ?c)(c_eq ?c e := remove1 e (todo (queues s ?q)))"
      unfolding ids select_result [OF Cons] by (simp add: core_of_def fun_eq_iff)
    show "c_busy (core_of ?s') = (c_busy ?c)(c_eq ?c e := busy (queues s ?q) @ [e])"
      unfolding ids select_result [OF Cons] by (simp add: core_of_def fun_eq_iff)
    show "c_el (core_of ?s') = (c_el ?c)(c_ep ?c e := rest)"
      unfolding ids select_result [OF Cons] by (simp add: core_of_def fun_eq_iff)
    show "c_live (core_of ?s') = c_live ?c" "c_next (core_of ?s') = c_next ?c"
      "c_eq (core_of ?s') = c_eq ?c" "c_ep (core_of ?s') = c_ep ?c"
      "c_lq (core_of ?s') = c_lq ?c" "c_lp (core_of ?s') = c_lp ?c"
      "c_rc (core_of ?s') = c_rc ?c"
      unfolding select_result [OF Cons] by (simp_all add: core_of_def fun_eq_iff)
    from qq(1) show "distinct (remove1 e (todo (queues s ?q)))"
      unfolding ids td by (rule distinct_remove1)
    from qq(2) h(5) show "distinct (busy (queues s ?q) @ [e])" unfolding ids bs by simp
    from pp(1) show "distinct rest" unfolding ids el by simp
    show "x \<in> set (remove1 e (todo (queues s ?q))) \<or> x \<in> set (busy (queues s ?q) @ [e])
          \<longleftrightarrow> x \<in> set (c_todo ?c (c_eq ?c e)) \<or> x \<in> set (c_busy ?c (c_eq ?c e))" for x
      unfolding ids td bs using qq(1) [unfolded ids td] h(4)
      by (auto simp: set_remove1_eq)
    show "\<not> (x \<in> set (remove1 e (todo (queues s ?q))) \<and> x \<in> set (busy (queues s ?q) @ [e]))"
      for x
    proof
      assume a: "x \<in> set (remove1 e (todo (queues s ?q))) \<and> x \<in> set (busy (queues s ?q) @ [e])"
      with qq(1) [unfolded ids td] have x: "x \<in> set (todo (queues s ?q))" "x \<noteq> e"
        by (auto simp: set_remove1_eq)
      with a have xb: "x \<in> set (c_busy ?c ?q)" unfolding bs by simp
      from x have xt: "x \<in> set (c_todo ?c ?q)" unfolding td by simp
      from qq(3) [unfolded ids, OF xt] have xl: "x \<in> set (c_live ?c)" "c_eq ?c x = ?q" by auto
      from core_inv_live(4) [OF ci xl(1)] xt xb xl(2) show False by simp
    qed
    show "x \<in> set rest \<longleftrightarrow> x \<in> set (c_el ?c (c_ep ?c e))" if "x \<noteq> e" for x
      unfolding ids el using that by simp
    show "e \<in> set rest \<longleftrightarrow> e \<in> set (remove1 e (todo (queues s ?q)))"
      using h(3) qq(1) [unfolded ids td] by (simp add: set_remove1_eq)
    show "x \<in> set (remove1 e (todo (queues s ?q))) \<longleftrightarrow> x \<in> set (c_todo ?c (c_eq ?c e))"
      if "x \<noteq> e" for x
      unfolding ids td using that by simp
  qed
  then show ?thesis by (simp add: qmgr_inv_core)
qed

lemma unselect_result:
  "qmgr_entry_unselect e s =
     s\<lparr>queues := (queues s)(e_queue (entries s e) :=
           (queues s (e_queue (entries s e)))
             \<lparr>todo := todo (queues s (e_queue (entries s e))) @ [e],
              busy := remove1 e (busy (queues s (e_queue (entries s e)))),
              todo_refcount := todo_refcount (queues s (e_queue (entries s e))) + 1,
              busy_refcount := busy_refcount (queues s (e_queue (entries s e))) - 1\<rparr>),
        peers := (peers s)(e_peer (entries s e) :=
           (peers s (e_peer (entries s e)))
             \<lparr>entry_list := entry_list (peers s (e_peer (entries s e))) @ [e]\<rparr>),
        jobs := (jobs s)(p_job (peers s (e_peer (entries s e))) :=
           (jobs s (p_job (peers s (e_peer (entries s e)))))
             \<lparr>selected_entries :=
                selected_entries (jobs s (p_job (peers s (e_peer (entries s e))))) - 1\<rparr>)\<rparr>"
  by (auto simp: qmgr_entry_unselect_def Let_def qmgr_upd_defs fun_eq_iff
      intro!: qmgr.equality qmgr_queue.equality)

lemma inv_unselect:
  assumes inv: "qmgr_inv s" and live: "e \<in> set (live_entries s)"
    and on_busy: "e \<in> set (busy (queues s (e_queue (entries s e))))"
  shows "qmgr_inv (qmgr_entry_unselect e s)"
proof -
  let ?c = "core_of s"
  let ?q = "e_queue (entries s e)"
  let ?p = "e_peer (entries s e)"
  from inv have ci: "core_inv ?c" by (simp add: qmgr_inv_core)
  have cl: "e \<in> set (c_live ?c)" using live by (simp add: core_of_def)
  have ids: "c_eq ?c e = ?q" "c_ep ?c e = ?p" by (simp_all add: core_of_def)
  note le = core_inv_live [OF ci cl]
  note qq = core_inv_queue [OF ci le(2)]
  note pp = core_inv_peer [OF ci le(3)]
  have td: "c_todo ?c ?q = todo (queues s ?q)" and bs: "c_busy ?c ?q = busy (queues s ?q)"
    and el: "c_el ?c ?p = entry_list (peers s ?p)" by (simp_all add: core_of_def)
  from le(4) on_busy have nt: "e \<notin> set (todo (queues s ?q))" unfolding ids td bs by simp
  with le(5) have nl: "e \<notin> set (entry_list (peers s ?p))" unfolding ids td el by simp
  let ?s' = "qmgr_entry_unselect e s"
  have "core_inv (core_of ?s')"
  proof (rule core_move [OF ci cl, where t' = "todo (queues s ?q) @ [e]"
        and b' = "remove1 e (busy (queues s ?q))" and l' = "entry_list (peers s ?p) @ [e]"])
    show "c_todo (core_of ?s') = (c_todo ?c)(c_eq ?c e := todo (queues s ?q) @ [e])"
      unfolding ids unselect_result by (simp add: core_of_def fun_eq_iff)
    show "c_busy (core_of ?s') = (c_busy ?c)(c_eq ?c e := remove1 e (busy (queues s ?q)))"
      unfolding ids unselect_result by (simp add: core_of_def fun_eq_iff)
    show "c_el (core_of ?s') = (c_el ?c)(c_ep ?c e := entry_list (peers s ?p) @ [e])"
      unfolding ids unselect_result by (simp add: core_of_def fun_eq_iff)
    show "c_live (core_of ?s') = c_live ?c" "c_next (core_of ?s') = c_next ?c"
      "c_eq (core_of ?s') = c_eq ?c" "c_ep (core_of ?s') = c_ep ?c"
      "c_lq (core_of ?s') = c_lq ?c" "c_lp (core_of ?s') = c_lp ?c"
      "c_rc (core_of ?s') = c_rc ?c"
      unfolding unselect_result by (simp_all add: core_of_def fun_eq_iff)
    from qq(1) nt show "distinct (todo (queues s ?q) @ [e])" unfolding ids td by simp
    from qq(2) show "distinct (remove1 e (busy (queues s ?q)))"
      unfolding ids bs by (rule distinct_remove1)
    from pp(1) nl show "distinct (entry_list (peers s ?p) @ [e])" unfolding ids el by simp
    show "x \<in> set (todo (queues s ?q) @ [e]) \<or> x \<in> set (remove1 e (busy (queues s ?q)))
          \<longleftrightarrow> x \<in> set (c_todo ?c (c_eq ?c e)) \<or> x \<in> set (c_busy ?c (c_eq ?c e))" for x
      unfolding ids td bs using qq(2) [unfolded ids bs] on_busy
      by (auto simp: set_remove1_eq)
    show "\<not> (x \<in> set (todo (queues s ?q) @ [e]) \<and> x \<in> set (remove1 e (busy (queues s ?q))))"
      for x
    proof
      assume a: "x \<in> set (todo (queues s ?q) @ [e]) \<and> x \<in> set (remove1 e (busy (queues s ?q)))"
      with qq(2) [unfolded ids bs] have x: "x \<in> set (busy (queues s ?q))" "x \<noteq> e"
        by (auto simp: set_remove1_eq)
      with a have xt: "x \<in> set (c_todo ?c ?q)" unfolding td by simp
      from x have xb: "x \<in> set (c_busy ?c ?q)" unfolding bs by simp
      from qq(3) [unfolded ids, OF xt] have xl: "x \<in> set (c_live ?c)" "c_eq ?c x = ?q" by auto
      from core_inv_live(4) [OF ci xl(1)] xt xb xl(2) show False by simp
    qed
    show "x \<in> set (entry_list (peers s ?p) @ [e]) \<longleftrightarrow> x \<in> set (c_el ?c (c_ep ?c e))"
      if "x \<noteq> e" for x
      unfolding ids el using that by simp
    show "e \<in> set (entry_list (peers s ?p) @ [e]) \<longleftrightarrow> e \<in> set (todo (queues s ?q) @ [e])"
      by simp
    show "x \<in> set (todo (queues s ?q) @ [e]) \<longleftrightarrow> x \<in> set (c_todo ?c (c_eq ?c e))"
      if "x \<noteq> e" for x
      unfolding ids td using that by simp
  qed
  then show ?thesis by (simp add: qmgr_inv_core)
qed

lemma create_result:
  assumes "window (queues s (p_queue (peers s peer))) \<noteq> 0"
  shows "\<exists>s'. qmgr_entry_create peer message s = Inr (next_entry s, s') \<and>
     core_of s' = (core_of s)\<lparr>c_live := c_live (core_of s) @ [c_next (core_of s)],
            c_next := Suc (c_next (core_of s)),
            c_eq := (c_eq (core_of s))(c_next (core_of s) := p_queue (peers s peer)),
            c_ep := (c_ep (core_of s))(c_next (core_of s) := peer),
            c_todo := (c_todo (core_of s))(p_queue (peers s peer) :=
                         c_todo (core_of s) (p_queue (peers s peer)) @ [c_next (core_of s)]),
            c_el := (c_el (core_of s))(peer := c_el (core_of s) peer @ [c_next (core_of s)]),
            c_rc := (c_rc (core_of s))(peer := c_rc (core_of s) peer + 1)\<rparr>"
  using assms
  by (simp add: qmgr_entry_create_def Let_def qmgr_upd_defs core_of_def fun_eq_iff)

lemma inv_create:
  assumes inv: "qmgr_inv s" and pl: "peer \<in> live_peers s"
    and ql: "p_queue (peers s peer) \<in> live_queues s"
    and run: "qmgr_entry_create peer message s = Inr (e, s')"
  shows "qmgr_inv s'"
proof -
  from run have w: "window (queues s (p_queue (peers s peer))) \<noteq> 0"
    by (auto simp: qmgr_entry_create_def Let_def split: if_splits)
  from create_result [OF w, of message] run obtain
    c: "core_of s' = (core_of s)\<lparr>c_live := c_live (core_of s) @ [c_next (core_of s)],
            c_next := Suc (c_next (core_of s)),
            c_eq := (c_eq (core_of s))(c_next (core_of s) := p_queue (peers s peer)),
            c_ep := (c_ep (core_of s))(c_next (core_of s) := peer),
            c_todo := (c_todo (core_of s))(p_queue (peers s peer) :=
                         c_todo (core_of s) (p_queue (peers s peer)) @ [c_next (core_of s)]),
            c_el := (c_el (core_of s))(peer := c_el (core_of s) peer @ [c_next (core_of s)]),
            c_rc := (c_rc (core_of s))(peer := c_rc (core_of s) peer + 1)\<rparr>"
    by auto
  from inv have ci: "core_inv (core_of s)" by (simp add: qmgr_inv_core)
  have "peer \<in> c_lp (core_of s)" "p_queue (peers s peer) \<in> c_lq (core_of s)"
    using pl ql by (simp_all add: core_of_def)
  from core_create [OF ci this] show ?thesis unfolding qmgr_inv_core c .
qed

lemma core_of_dec:
  "core_of (upd_peer p (\<lambda>x. x\<lparr>p_refcount := p_refcount x - 1\<rparr>) s) =
     (core_of s)\<lparr>c_rc := (c_rc (core_of s))(p := c_rc (core_of s) p - 1)\<rparr>"
  by (simp add: core_of_def upd_peer_def fun_eq_iff)

lemma core_of_unlinked:
  assumes which: "which = QMGR_QUEUE_BUSY \<or> which = QMGR_QUEUE_TODO"
    and busy_case: "which = QMGR_QUEUE_BUSY \<Longrightarrow>
        e \<notin> set (todo (queues s (e_queue (entries s e))))
        \<and> e \<notin> set (entry_list (peers s (e_peer (entries s e))))"
    and todo_case: "which = QMGR_QUEUE_TODO \<Longrightarrow>
        e \<notin> set (busy (queues s (e_queue (entries s e))))"
  shows "core_of (done_counts e m job
            (done_unlink e which (e_queue (entries s e)) (e_peer (entries s e)) job s)) =
     (core_of s)\<lparr>c_live := removeAll e (c_live (core_of s)),
        c_todo := (c_todo (core_of s))(c_eq (core_of s) e :=
                     remove1 e (c_todo (core_of s) (c_eq (core_of s) e))),
        c_busy := (c_busy (core_of s))(c_eq (core_of s) e :=
                     remove1 e (c_busy (core_of s) (c_eq (core_of s) e))),
        c_el := (c_el (core_of s))(c_ep (core_of s) e :=
                     remove1 e (c_el (core_of s) (c_ep (core_of s) e)))\<rparr>"
proof (cases "which = QMGR_QUEUE_BUSY")
  case True
  with busy_case show ?thesis
    by (simp add: done_counts_def done_unlink_def Let_def qmgr_upd_defs core_of_def fun_eq_iff
        remove1_idem)
next
  case False
  with which have t: "which = QMGR_QUEUE_TODO" by simp
  with todo_case False show ?thesis
    by (simp add: done_counts_def done_unlink_def Let_def qmgr_upd_defs core_of_def fun_eq_iff
        remove1_idem)
qed

lemma inv_done_peer:
  assumes "qmgr_inv (upd_peer p (\<lambda>x. x\<lparr>p_refcount := p_refcount x - 1\<rparr>) s)"
    and "p \<in> live_peers s"
  shows "qmgr_inv (done_peer p s)"
proof -
  let ?s1 = "upd_peer p (\<lambda>x. x\<lparr>p_refcount := p_refcount x - 1\<rparr>) s"
  show ?thesis
  proof (cases "p_refcount (peers ?s1 p) = 0")
    case False
    with assms(1) show ?thesis by (simp add: done_peer_def Let_def)
  next
    case True
    from assms(1) have ci: "core_inv (core_of ?s1)" by (simp add: qmgr_inv_core)
    have rc: "c_rc (core_of ?s1) p = 0" using True by (simp add: core_of_def)
    have pl: "p \<in> c_lp (core_of ?s1)" using assms(2) by (simp add: core_of_def upd_peer_def)
    have "core_of (qmgr_peer_free p ?s1) = (core_of ?s1)\<lparr>c_lp := c_lp (core_of ?s1) - {p}\<rparr>"
      by (simp add: core_of_def qmgr_peer_free_def)
    with core_peer_free [OF ci rc pl] have "qmgr_inv (qmgr_peer_free p ?s1)"
      by (simp add: qmgr_inv_core)
    with True show ?thesis by (simp add: done_peer_def Let_def)
  qed
qed

lemma inv_done_queue:
  assumes "qmgr_inv s"
  shows "qmgr_inv (done_queue q s)"
proof (cases "todo (queues s q) = [] \<and> busy (queues s q) = []")
  case False
  then have "done_queue q s = s" unfolding done_queue_def by (rule if_not_P)
  with assms show ?thesis by (simp del: core_of_simps)
next
  case True
  let ?s1 = "if window (queues s q) = 0 \<and> qmgr_queue_count s > 2 * var_qmgr_rcpt_limit s
             then qmgr_queue_unthrottle q s else s"
  have c1: "core_of ?s1 = core_of s" by simp
  with assms have ci: "core_inv (core_of ?s1)" by (simp add: qmgr_inv_core)
  have empty: "c_todo (core_of ?s1) q = []" "c_busy (core_of ?s1) q = []"
    unfolding c1 using True by (simp_all add: core_of_def)
  have "core_of (qmgr_queue_done q ?s1) = (core_of ?s1)\<lparr>c_lq := c_lq (core_of ?s1) - {q}\<rparr>"
    by (simp add: core_of_def qmgr_queue_done_def)
  with core_queue_done [OF ci empty] have a: "qmgr_inv (qmgr_queue_done q ?s1)"
    by (simp add: qmgr_inv_core)
  from ci have b: "qmgr_inv ?s1" by (simp add: qmgr_inv_core)
  from True have eq: "done_queue q s =
      (if window (queues ?s1 q) > 0 then qmgr_queue_done q ?s1 else ?s1)"
    unfolding done_queue_def Let_def by (rule if_P)
  define s1 where "s1 = ?s1"
  from a have a': "qmgr_inv (qmgr_queue_done q s1)" unfolding s1_def .
  from b have b': "qmgr_inv s1" unfolding s1_def .
  from eq have "done_queue q s = (if window (queues s1 q) > 0 then qmgr_queue_done q s1 else s1)"
    unfolding s1_def .
  with a' b' show ?thesis by (simp del: core_of_simps)
qed

lemma inv_done:
  assumes inv: "qmgr_inv s" and live: "e \<in> set (live_entries s)"
    and on_list: "which = QMGR_QUEUE_BUSY \<and> e \<in> set (busy (queues s (e_queue (entries s e))))
        \<or> which = QMGR_QUEUE_TODO \<and> e \<in> set (todo (queues s (e_queue (entries s e))))"
    and run: "qmgr_entry_done ml e which s = Inr s'"
  shows "qmgr_inv s'"
proof -
  let ?c = "core_of s"
  let ?q = "e_queue (entries s e)" and ?p = "e_peer (entries s e)"
  let ?m = "e_message (entries s e)"
  let ?job = "p_job (peers s ?p)"
  let ?t = "j_transport (jobs s ?job)"
  let ?s2 = "done_counts e ?m ?job (done_unlink e which ?q ?p ?job s)"
  let ?s4 = "done_blocker ?q ?t (done_limits ml ?m ?job ?s2)"
  from inv have ci: "core_inv ?c" by (simp add: qmgr_inv_core)
  have cl: "e \<in> set (c_live ?c)" using live by (simp add: core_of_def)
  note le = core_inv_live [OF ci cl]
  have mem: "e \<in> set (todo (queues s ?q)) \<longleftrightarrow> e \<notin> set (busy (queues s ?q))"
    "e \<in> set (entry_list (peers s ?p)) \<longleftrightarrow> e \<in> set (todo (queues s ?q))"
    using le(4,5) by (simp_all add: core_of_def)
  from on_list have which: "which = QMGR_QUEUE_BUSY \<or> which = QMGR_QUEUE_TODO" by blast
  have bt: "QMGR_QUEUE_BUSY \<noteq> QMGR_QUEUE_TODO"
    by (simp add: QMGR_QUEUE_BUSY_def QMGR_QUEUE_TODO_def)
  have c2: "core_of ?s2 =
     ?c\<lparr>c_live := removeAll e (c_live ?c),
        c_todo := (c_todo ?c)(c_eq ?c e := remove1 e (c_todo ?c (c_eq ?c e))),
        c_busy := (c_busy ?c)(c_eq ?c e := remove1 e (c_busy ?c (c_eq ?c e))),
        c_el := (c_el ?c)(c_ep ?c e := remove1 e (c_el ?c (c_ep ?c e)))\<rparr>"
    using on_list mem bt by (intro core_of_unlinked [OF which]) auto
  have c4: "core_of ?s4 = core_of ?s2" by simp
  let ?s4a = "upd_peer ?p (\<lambda>x. x\<lparr>p_refcount := p_refcount x - 1\<rparr>) ?s4"
  have "core_of ?s4a =
     ?c\<lparr>c_live := removeAll e (c_live ?c),
        c_todo := (c_todo ?c)(c_eq ?c e := remove1 e (c_todo ?c (c_eq ?c e))),
        c_busy := (c_busy ?c)(c_eq ?c e := remove1 e (c_busy ?c (c_eq ?c e))),
        c_el := (c_el ?c)(c_ep ?c e := remove1 e (c_el ?c (c_ep ?c e))),
        c_rc := (c_rc ?c)(c_ep ?c e := c_rc ?c (c_ep ?c e) - 1)\<rparr>"
    unfolding core_of_dec c4 c2 by (simp add: core_of_def)
  with core_remove [OF ci cl] have i4a: "qmgr_inv ?s4a" by (simp add: qmgr_inv_core)
  have "c_lp (core_of ?s4) = c_lp ?c" unfolding c4 c2 by simp
  with le(3) have "?p \<in> live_peers ?s4" by (simp add: core_of_def)
  from inv_done_peer [OF i4a this] have "qmgr_inv (done_peer ?p ?s4)" .
  then have "qmgr_inv (done_queue ?q (done_peer ?p ?s4))" by (rule inv_done_queue)
  then have "qmgr_inv (done_message ?m (done_queue ?q (done_peer ?p ?s4)))"
    by (simp add: qmgr_inv_core)
  moreover from run have "s' = done_message ?m (done_queue ?q (done_peer ?p ?s4))"
    by (auto simp: qmgr_entry_done_def Let_def split: if_splits)
  ultimately show ?thesis by simp
qed

lemma qmgr0_inv: "qmgr_inv qmgr0"
  by (simp add: qmgr_inv_def qmgr0_def entry_placed_def queue_lists_ok_def peer_list_ok_def)

lemma qmgr0_select:
  "qmgr_entry_select 0 qmgr0 =
     (Some 1,
      qmgr0\<lparr>queues := (queues qmgr0)(0 :=
                \<lparr>q_transport = 0, todo = [2], busy = [1], todo_refcount = 1,
                 busy_refcount = 1, window = 5, q_blocker_tag = 0\<rparr>),
             peers := (peers qmgr0)(0 :=
                \<lparr>p_job = 0, p_queue = 0, p_refcount = 2, entry_list = [2]\<rparr>),
             jobs := (jobs qmgr0)(0 :=
                \<lparr>j_transport = 0, selected_entries = 1, j_rcpt_count = 2,
                 j_rcpt_limit = 10, stack_level = 0\<rparr>)\<rparr>)"
proof -
  have el: "entry_list (peers qmgr0 0) = 1 # [2]" by (simp add: qmgr0_def)
  show ?thesis unfolding select_result [OF el] by (simp add: qmgr0_def)
qed

text \<open>
  C7, as the claim states it, fails. In \<open>qmgr0\<close> the peer's list and the queue's \<open>todo\<close>
  list are both \<open>[1, 2]\<close>. \<open>qmgr_entry_select\<close> takes entry 1, the first of the peer's
  list; \<open>qmgr_entry_unselect\<close> appends it, so that afterwards both lists are \<open>[2, 1]\<close>:
  the order of the lists is not restored.
\<close>

theorem select_unselect_order_counterexample:
  "qmgr_inv qmgr0
   \<and> fst (qmgr_entry_select 0 qmgr0) = Some 1
   \<and> todo (queues qmgr0 0) = [1, 2]
   \<and> todo (queues (qmgr_entry_unselect 1 (snd (qmgr_entry_select 0 qmgr0))) 0) = [2, 1]
   \<and> entry_list (peers qmgr0 0) = [1, 2]
   \<and> entry_list (peers (qmgr_entry_unselect 1 (snd (qmgr_entry_select 0 qmgr0))) 0) = [2, 1]"
proof -
  have "todo (queues qmgr0 0) = [1, 2]" "entry_list (peers qmgr0 0) = [1, 2]"
    by (simp_all add: qmgr0_def)
  moreover have "todo (queues (qmgr_entry_unselect 1 (snd (qmgr_entry_select 0 qmgr0))) 0) = [2, 1]"
    "entry_list (peers (qmgr_entry_unselect 1 (snd (qmgr_entry_select 0 qmgr0))) 0) = [2, 1]"
    unfolding qmgr0_select by (simp_all add: unselect_result qmgr0_def)
  ultimately show ?thesis using qmgr0_inv by (simp add: qmgr0_select)
qed

text \<open>
  C7, amended. In a state that satisfies the invariant, a successful
  \<open>qmgr_entry_select\<close> on a live peer returns the first entry of the peer's list, takes
  it off the queue's \<open>todo\<close> list and off the peer's list, appends it to the queue's
  \<open>busy\<close> list, decrements \<open>todo_refcount\<close> and increments \<open>busy_refcount\<close> and the
  job's \<open>selected_entries\<close>, and changes nothing else. \<open>qmgr_entry_unselect\<close> right
  after it gives back the state before the select (the \<open>busy\<close> list, all the counters,
  the job, and the members of the \<open>todo\<close> list and of the peer's list), except that the
  entry is now the last one of the \<open>todo\<close> list and of the peer's list instead of the
  first one of the peer's list.
\<close>

theorem select_unselect_up_to_order:
  assumes "qmgr_inv s" and "peer \<in> live_peers s"
    and "qmgr_entry_select peer s = (Some entry, s1)"
  shows "entry = hd (entry_list (peers s peer))
   \<and> s1 = s\<lparr>queues := (queues s)(e_queue (entries s entry) :=
             (queues s (e_queue (entries s entry)))
               \<lparr>todo := remove1 entry (todo (queues s (e_queue (entries s entry)))),
                busy := busy (queues s (e_queue (entries s entry))) @ [entry],
                todo_refcount := todo_refcount (queues s (e_queue (entries s entry))) - 1,
                busy_refcount := busy_refcount (queues s (e_queue (entries s entry))) + 1\<rparr>),
          peers := (peers s)(peer :=
             (peers s peer)\<lparr>entry_list := tl (entry_list (peers s peer))\<rparr>),
          jobs := (jobs s)(p_job (peers s peer) :=
             (jobs s (p_job (peers s peer)))
               \<lparr>selected_entries := selected_entries (jobs s (p_job (peers s peer))) + 1\<rparr>)\<rparr>
   \<and> qmgr_entry_unselect entry s1 =
       s\<lparr>queues := (queues s)(e_queue (entries s entry) :=
             (queues s (e_queue (entries s entry)))
               \<lparr>todo := remove1 entry (todo (queues s (e_queue (entries s entry)))) @ [entry]\<rparr>),
          peers := (peers s)(peer :=
             (peers s peer)\<lparr>entry_list := tl (entry_list (peers s peer)) @ [entry]\<rparr>)\<rparr>"
proof -
  from select_Some [OF assms(3)] obtain rest where el: "entry_list (peers s peer) = entry # rest"
    by blast
  from assms(3) select_result [OF el] have
    "s1 = s\<lparr>queues := (queues s)(e_queue (entries s entry) :=
             (queues s (e_queue (entries s entry)))
               \<lparr>todo := remove1 entry (todo (queues s (e_queue (entries s entry)))),
                busy := busy (queues s (e_queue (entries s entry))) @ [entry],
                todo_refcount := todo_refcount (queues s (e_queue (entries s entry))) - 1,
                busy_refcount := busy_refcount (queues s (e_queue (entries s entry))) + 1\<rparr>),
          peers := (peers s)(peer := (peers s peer)\<lparr>entry_list := rest\<rparr>),
          jobs := (jobs s)(p_job (peers s peer) :=
             (jobs s (p_job (peers s peer)))
               \<lparr>selected_entries := selected_entries (jobs s (p_job (peers s peer))) + 1\<rparr>)\<rparr>"
    by simp
  moreover from el have "rest = tl (entry_list (peers s peer))"
    and "entry = hd (entry_list (peers s peer))" by simp_all
  ultimately show ?thesis using select_unselect [OF assms] by blast
qed

text \<open>The select and the unselect of entry 1 in \<open>qmgr0\<close>.\<close>

theorem select_unselect_up_to_order_witness:
  "qmgr_inv qmgr0 \<and> 0 \<in> live_peers qmgr0
   \<and> qmgr_entry_select 0 qmgr0 = (Some 1, snd (qmgr_entry_select 0 qmgr0))
   \<and> qmgr_entry_unselect 1 (snd (qmgr_entry_select 0 qmgr0)) =
       qmgr0\<lparr>queues := (queues qmgr0)(0 :=
                \<lparr>q_transport = 0, todo = [2, 1], busy = [], todo_refcount = 2,
                 busy_refcount = 0, window = 5, q_blocker_tag = 0\<rparr>),
             peers := (peers qmgr0)(0 :=
                \<lparr>p_job = 0, p_queue = 0, p_refcount = 2, entry_list = [2, 1]\<rparr>)\<rparr>"
proof -
  have live: "0 \<in> live_peers qmgr0" by (simp add: qmgr0_def)
  have sel: "qmgr_entry_select 0 qmgr0 = (Some 1, snd (qmgr_entry_select 0 qmgr0))"
    by (simp add: qmgr0_select)
  have fields: "e_queue (entries qmgr0 1) = 0"
    "queues qmgr0 0 = \<lparr>q_transport = 0, todo = [1, 2], busy = [], todo_refcount = 2,
                      busy_refcount = 0, window = 5, q_blocker_tag = 0\<rparr>"
    "peers qmgr0 0 = \<lparr>p_job = 0, p_queue = 0, p_refcount = 2, entry_list = [1, 2]\<rparr>"
    by (simp_all add: qmgr0_def)
  from select_unselect_up_to_order [OF qmgr0_inv live sel]
  have "qmgr_entry_unselect 1 (snd (qmgr_entry_select 0 qmgr0)) =
       qmgr0\<lparr>queues := (queues qmgr0)(e_queue (entries qmgr0 1) :=
             (queues qmgr0 (e_queue (entries qmgr0 1)))
               \<lparr>todo := remove1 1 (todo (queues qmgr0 (e_queue (entries qmgr0 1)))) @ [1]\<rparr>),
          peers := (peers qmgr0)(0 :=
             (peers qmgr0 0)\<lparr>entry_list := tl (entry_list (peers qmgr0 0)) @ [1]\<rparr>)\<rparr>"
    by blast
  then have "qmgr_entry_unselect 1 (snd (qmgr_entry_select 0 qmgr0)) =
       qmgr0\<lparr>queues := (queues qmgr0)(0 :=
                \<lparr>q_transport = 0, todo = [2, 1], busy = [], todo_refcount = 2,
                 busy_refcount = 0, window = 5, q_blocker_tag = 0\<rparr>),
             peers := (peers qmgr0)(0 :=
                \<lparr>p_job = 0, p_queue = 0, p_refcount = 2, entry_list = [2, 1]\<rparr>)\<rparr>"
    unfolding fields by simp
  with qmgr0_inv live sel show ?thesis by blast
qed

text \<open>
  C6. In a state that satisfies the invariant, every live entry is on exactly one of the
  \<open>todo\<close> and \<open>busy\<close> lists of its queue, and on its peer's list exactly when it is on
  \<open>todo\<close>; and the invariant holds again after each of the operations:
  \<open>qmgr_entry_create\<close> for a live peer of a live queue, \<open>qmgr_entry_select\<close> on a live
  peer, \<open>qmgr_entry_unselect\<close> of a live entry that is on \<open>busy\<close>, \<open>qmgr_entry_done\<close>
  with \<open>QMGR_QUEUE_BUSY\<close> of a live entry that is on \<open>busy\<close>, and \<open>qmgr_entry_done\<close>
  with \<open>QMGR_QUEUE_TODO\<close> of a live entry that is on \<open>todo\<close>, whatever
  \<open>qmgr_job_move_limits\<close> does to the jobs, the messages and the transports.
\<close>

theorem entry_operations_preserve_invariant:
  assumes "qmgr_inv s"
  shows "list_all (entry_placed s) (live_entries s)
   \<and> (peer \<in> live_peers s \<and> p_queue (peers s peer) \<in> live_queues s
        \<and> qmgr_entry_create peer message s = Inr (entry, s_create) \<longrightarrow> qmgr_inv s_create)
   \<and> (peer \<in> live_peers s \<longrightarrow> qmgr_inv (snd (qmgr_entry_select peer s)))
   \<and> (e \<in> set (live_entries s) \<and> e \<in> set (busy (queues s (e_queue (entries s e))))
        \<longrightarrow> qmgr_inv (qmgr_entry_unselect e s))
   \<and> (e \<in> set (live_entries s) \<and> e \<in> set (busy (queues s (e_queue (entries s e))))
        \<and> qmgr_entry_done ml e QMGR_QUEUE_BUSY s = Inr s_busy \<longrightarrow> qmgr_inv s_busy)
   \<and> (e \<in> set (live_entries s) \<and> e \<in> set (todo (queues s (e_queue (entries s e))))
        \<and> qmgr_entry_done ml e QMGR_QUEUE_TODO s = Inr s_todo \<longrightarrow> qmgr_inv s_todo)"
proof -
  from assms have "list_all (entry_placed s) (live_entries s)"
    by (simp add: qmgr_inv_def list_all_iff)
  moreover have "qmgr_inv s_create"
    if "peer \<in> live_peers s" "p_queue (peers s peer) \<in> live_queues s"
      "qmgr_entry_create peer message s = Inr (entry, s_create)"
    using inv_create [OF assms that] .
  moreover have "qmgr_inv (snd (qmgr_entry_select peer s))" if "peer \<in> live_peers s"
    using inv_select [OF assms that] .
  moreover have "qmgr_inv (qmgr_entry_unselect e s)"
    if "e \<in> set (live_entries s)" "e \<in> set (busy (queues s (e_queue (entries s e))))"
    using inv_unselect [OF assms that] .
  moreover have "qmgr_inv s_busy"
    if "e \<in> set (live_entries s)" "e \<in> set (busy (queues s (e_queue (entries s e))))"
      "qmgr_entry_done ml e QMGR_QUEUE_BUSY s = Inr s_busy"
    using inv_done [OF assms that(1) _ that(3)] that(2) by blast
  moreover have "qmgr_inv s_todo"
    if "e \<in> set (live_entries s)" "e \<in> set (todo (queues s (e_queue (entries s e))))"
      "qmgr_entry_done ml e QMGR_QUEUE_TODO s = Inr s_todo"
    using inv_done [OF assms that(1) _ that(3)] that(2) by blast
  ultimately show ?thesis by blast
qed

text \<open>
  The five operations in \<open>qmgr0\<close>: a third entry is created; entry 1 is selected and
  then either unselected or done while on \<open>busy\<close>; entry 1 is done while on \<open>todo\<close>.
\<close>

theorem entry_operations_preserve_invariant_witness:
  "qmgr_inv qmgr0
   \<and> \<not> isl (qmgr_entry_create 0 0 qmgr0)
   \<and> qmgr_inv (snd (projr (qmgr_entry_create 0 0 qmgr0)))
   \<and> fst (qmgr_entry_select 0 qmgr0) = Some 1
   \<and> qmgr_inv (snd (qmgr_entry_select 0 qmgr0))
   \<and> qmgr_inv (qmgr_entry_unselect 1 (snd (qmgr_entry_select 0 qmgr0)))
   \<and> \<not> isl (qmgr_entry_done no_move 1 QMGR_QUEUE_BUSY (snd (qmgr_entry_select 0 qmgr0)))
   \<and> qmgr_inv (projr (qmgr_entry_done no_move 1 QMGR_QUEUE_BUSY (snd (qmgr_entry_select 0 qmgr0))))
   \<and> \<not> isl (qmgr_entry_done no_move 1 QMGR_QUEUE_TODO qmgr0)
   \<and> qmgr_inv (projr (qmgr_entry_done no_move 1 QMGR_QUEUE_TODO qmgr0))"
proof -
  define s1 where "s1 = snd (qmgr_entry_select 0 qmgr0)"
  have s1: "s1 = qmgr0\<lparr>queues := (queues qmgr0)(0 :=
                \<lparr>q_transport = 0, todo = [2], busy = [1], todo_refcount = 1,
                 busy_refcount = 1, window = 5, q_blocker_tag = 0\<rparr>),
             peers := (peers qmgr0)(0 :=
                \<lparr>p_job = 0, p_queue = 0, p_refcount = 2, entry_list = [2]\<rparr>),
             jobs := (jobs qmgr0)(0 :=
                \<lparr>j_transport = 0, selected_entries = 1, j_rcpt_count = 2,
                 j_rcpt_limit = 10, stack_level = 0\<rparr>)\<rparr>"
    by (simp add: s1_def qmgr0_select)
  have pre0: "0 \<in> live_peers qmgr0" "p_queue (peers qmgr0 0) \<in> live_queues qmgr0"
    "1 \<in> set (live_entries qmgr0)"
    "1 \<in> set (todo (queues qmgr0 (e_queue (entries qmgr0 1))))"
    by (simp_all add: qmgr0_def)
  have pre1: "1 \<in> set (live_entries s1)"
    "1 \<in> set (busy (queues s1 (e_queue (entries s1 1))))"
    by (simp_all add: s1 qmgr0_def)
  obtain sc where sc: "qmgr_entry_create 0 0 qmgr0 = Inr (3, sc)"
    by (simp add: qmgr_entry_create_def Let_def qmgr0_def)
  obtain st where st: "qmgr_entry_done no_move 1 QMGR_QUEUE_TODO qmgr0 = Inr st"
    by (simp add: qmgr_entry_done_def Let_def qmgr0_def QMGR_QUEUE_TODO_def QMGR_QUEUE_BUSY_def)
  obtain sb where sb: "qmgr_entry_done no_move 1 QMGR_QUEUE_BUSY s1 = Inr sb"
    by (simp add: qmgr_entry_done_def Let_def s1 qmgr0_def QMGR_QUEUE_TODO_def
        QMGR_QUEUE_BUSY_def)
  note at0 = entry_operations_preserve_invariant [OF qmgr0_inv,
      where peer = 0 and message = 0 and entry = 3 and s_create = sc and e = 1
        and ml = no_move and s_todo = st]
  from at0 pre0 sc st have r0: "qmgr_inv sc" "qmgr_inv s1" "qmgr_inv st"
    unfolding s1_def by blast+
  note at1 = entry_operations_preserve_invariant [OF r0(2),
      where e = 1 and ml = no_move and s_busy = sb]
  from at1 pre1 sb have r1: "qmgr_inv (qmgr_entry_unselect 1 s1)" "qmgr_inv sb"
    by blast+
  have sel: "fst (qmgr_entry_select 0 qmgr0) = Some 1" by (simp add: qmgr0_select)
  from sc r0(1) have c: "\<not> isl (qmgr_entry_create 0 0 qmgr0)"
    "qmgr_inv (snd (projr (qmgr_entry_create 0 0 qmgr0)))" by simp_all
  from st r0(3) have t: "\<not> isl (qmgr_entry_done no_move 1 QMGR_QUEUE_TODO qmgr0)"
    "qmgr_inv (projr (qmgr_entry_done no_move 1 QMGR_QUEUE_TODO qmgr0))" by simp_all
  from sb r1(2) have b: "\<not> isl (qmgr_entry_done no_move 1 QMGR_QUEUE_BUSY s1)"
    "qmgr_inv (projr (qmgr_entry_done no_move 1 QMGR_QUEUE_BUSY s1))" by simp_all
  from qmgr0_inv c sel r0(2) r1(1) b t show ?thesis
    unfolding s1_def by blast
qed

end
